theory Spec2Isabelle
  imports Complex_Main "HOL-Library.Word" "HOL-Library.Monad_Syntax" "HOL-Library.Multiset"
begin

section \<open>Multi-key relinearization (mkbfv/relinearization.go)\<close>

subsection \<open>Polynomial objects and the store\<close>

text \<open>
  A \<^verbatim>\<open>*ring.Poly\<close> is a pointer. The polynomials of a ciphertext and of the result
  slice \<^verbatim>\<open>res\<close> are reached through such pointers and written through them, so
  they live in a store: an address is an index into the list of all polynomial objects
  allocated so far, and \<^verbatim>\<open>NewPoly\<close> appends a new object. An address outside the
  store stands for a nil pointer; reading or writing through it panics (\<open>None\<close>).

  The type \<open>'p\<close> of the contents of a polynomial object is left open: the ring engine
  (package \<^verbatim>\<open>ring\<close>) is not part of the sources at hand, and its operations are
  taken as parameters below.
\<close>

type_synonym addr = nat

type_synonym 'p heap = "'p list"

definition deref :: "'p heap \<Rightarrow> addr \<Rightarrow> 'p option" where
  "deref h a = (if a < length h then Some (h ! a) else None)"

definition store :: "'p heap \<Rightarrow> addr \<Rightarrow> 'p \<Rightarrow> 'p heap option" where
  "store h a v = (if a < length h then Some (h[a := v]) else None)"

text \<open>Indexing a Go slice or array: out of range is a run-time panic.\<close>

definition index :: "'a list \<Rightarrow> nat \<Rightarrow> 'a option" where
  "index xs i = (if i < length xs then Some (xs ! i) else None)"

text \<open>A \<^verbatim>\<open>for\<close> loop over a range of indices whose body may panic.\<close>

fun foldM :: "('a \<Rightarrow> 's \<Rightarrow> 's option) \<Rightarrow> 'a list \<Rightarrow> 's \<Rightarrow> 's option" where
  "foldM f [] s = Some s"
| "foldM f (x # xs) s = (case f x s of None \<Rightarrow> None | Some s' \<Rightarrow> foldM f xs s')"

subsection \<open>The ring engine and the parameters\<close>

text \<open>
  \<^verbatim>\<open>ring.Ring\<close>: the methods the two relinearization functions call.
  \<^verbatim>\<open>r.Add(p1, p2, p3)\<close> writes \<open>Add r p1 p2\<close> into \<^verbatim>\<open>p3\<close>;
  \<^verbatim>\<open>r.MulCoeffsMontgomeryAndAdd(p1, p2, p3)\<close> replaces the contents \<open>c\<close> of
  \<^verbatim>\<open>p3\<close> by \<open>MulCoeffsMontgomeryAndAdd r p1 p2 c\<close>; \<^verbatim>\<open>r.NewPoly()\<close> allocates
  an object with contents \<open>NewPoly r\<close>.
\<close>

record 'p Ring =
  Modulus :: "64 word list"
  NewPoly :: 'p
  Add :: "'p \<Rightarrow> 'p \<Rightarrow> 'p"
  MulCoeffsMontgomeryAndAdd :: "'p \<Rightarrow> 'p \<Rightarrow> 'p \<Rightarrow> 'p"

text \<open>
  \<^verbatim>\<open>bfv.Parameters\<close> together with the functions of the package that depend on
  them and are not part of the sources at hand:
  \<^item> \<open>GetRingQ\<close>, \<open>GetRingQP\<close>, \<open>GetRingP\<close>: the rings over \<open>Q\<close>, \<open>Q\<cdot>P\<close> and \<open>P\<close>;
  \<^item> \<open>Beta\<close>: the number of digits of a decomposition;
  \<^item> \<open>GInverse params p\<close>: the digits of \<^verbatim>\<open>GInverse(p, params)\<close>, a newly
    allocated \<^verbatim>\<open>MKDecomposedPoly\<close> that only its caller holds;
  \<^item> \<open>Dot params p1 p2 c r\<close>: the contents of \<^verbatim>\<open>res\<close> after
    \<^verbatim>\<open>Dot(p1, p2, res, r)\<close>, where \<open>c\<close> is what \<^verbatim>\<open>res\<close> held before;
  \<^item> \<open>ModDownPQ params level p\<close>: the contents of the output of
    \<^verbatim>\<open>baseconverter.ModDownPQ(level, p, out)\<close>.
\<close>

record 'p Parameters =
  GetRingQ :: "'p Ring"
  GetRingQP :: "'p Ring"
  GetRingP :: "'p Ring"
  Beta :: nat
  GInverse :: "'p \<Rightarrow> 'p list"
  Dot :: "'p list \<Rightarrow> 'p list \<Rightarrow> 'p \<Rightarrow> 'p Ring \<Rightarrow> 'p"
  ModDownPQ :: "64 word \<Rightarrow> 'p \<Rightarrow> 'p"

subsection \<open>Keys and ciphertexts\<close>

text \<open>
  Neither function writes to key material, and a decomposed polynomial is only ever read:
  both are carried by value.
  \<^item> \<^verbatim>\<open>MKDecomposedPoly\<close>: the slice \<^verbatim>\<open>poly\<close> of digits;
  \<^item> \<^verbatim>\<open>MKSwitchingKey\<close>, \<^verbatim>\<open>MKEvaluationKey\<close>, \<^verbatim>\<open>MKPublicKey\<close>: the
    components \<^verbatim>\<open>key[0]\<close>, \<^verbatim>\<open>key[1]\<close>, ... , each a decomposed polynomial;
  \<^item> \<^verbatim>\<open>MKRelinearizationKey\<close>: the matrix \<^verbatim>\<open>key[i][j]\<close> of switching keys.
\<close>

type_synonym 'p MKDecomposedPoly = "'p list"

type_synonym 'p MKSwitchingKey = "'p MKDecomposedPoly list"

type_synonym 'p MKEvaluationKey = "'p MKDecomposedPoly list"

type_synonym 'p MKPublicKey = "'p MKDecomposedPoly list"

type_synonym 'p MKRelinearizationKey = "'p MKSwitchingKey list list"

text \<open>
  \<^verbatim>\<open>MKCiphertext\<close>: \<open>ciphertexts\<close> is the slice that
  \<^verbatim>\<open>ciphertext.ciphertexts.Value()\<close> returns and \<^verbatim>\<open>SetValue\<close> replaces.
\<close>

record MKCiphertext =
  ciphertexts :: "addr list"
  peerIDs :: "64 word list"

subsection \<open>applySwitchingKey\<close>

text \<open>
  The accumulators \<^verbatim>\<open>c0\<close>, \<^verbatim>\<open>ci\<close>, \<^verbatim>\<open>cj\<close> are allocated by the function and
  returned to the caller, which only reads them: they are the state of the loop.
  The loop runs over \<^verbatim>\<open>i < int(params.Beta())\<close>, a number of digits far below
  \<open>2^63\<close>, where the conversion is the identity.
\<close>

definition applySwitchingKey_body ::
  "'p MKDecomposedPoly \<Rightarrow> 'p MKSwitchingKey \<Rightarrow> 'p Ring \<Rightarrow> nat \<Rightarrow> 'p \<times> 'p \<times> 'p
    \<Rightarrow> ('p \<times> 'p \<times> 'p) option" where
  "applySwitchingKey_body decomposedCipher key ringQ i acc =
     (case acc of (c0, ci, cj) \<Rightarrow> do {
        d \<leftarrow> index decomposedCipher i;
        key0 \<leftarrow> index key 0;
        k0 \<leftarrow> index key0 i;
        key1 \<leftarrow> index key 1;
        k1 \<leftarrow> index key1 i;
        key2 \<leftarrow> index key 2;
        k2 \<leftarrow> index key2 i;
        Some (MulCoeffsMontgomeryAndAdd ringQ d k0 c0,
              MulCoeffsMontgomeryAndAdd ringQ d k1 ci,
              MulCoeffsMontgomeryAndAdd ringQ d k2 cj)
      })"

definition applySwitchingKey ::
  "'p MKDecomposedPoly \<Rightarrow> 'p MKSwitchingKey \<Rightarrow> 'p Parameters \<Rightarrow> ('p \<times> 'p \<times> 'p) option" where
  "applySwitchingKey decomposedCipher key params =
     (let ringQ = GetRingQ params;
          c0 = NewPoly ringQ;
          ci = NewPoly ringQ;
          cj = NewPoly ringQ
      in foldM (applySwitchingKey_body decomposedCipher key ringQ) [0..<Beta params] (c0, ci, cj))"

subsection \<open>Allocation and addition on the store\<close>

text \<open>
  \<^verbatim>\<open>res := make([]*ring.Poly, n); for i := 0; i < n; i++ { res[i] = r.NewPoly() }\<close>:
  \<open>n\<close> new objects, at the next \<open>n\<close> addresses.
\<close>

definition newPolys :: "'p Ring \<Rightarrow> nat \<Rightarrow> 'p heap \<Rightarrow> addr list \<times> 'p heap" where
  "newPolys r n h = ([length h..<length h + n], h @ replicate n (NewPoly r))"

text \<open>\<^verbatim>\<open>r.Add(p1, p2, p3)\<close> on three objects of the store.\<close>

definition Add_at :: "'p Ring \<Rightarrow> addr \<Rightarrow> addr \<Rightarrow> addr \<Rightarrow> 'p heap \<Rightarrow> 'p heap option" where
  "Add_at r p1 p2 p3 h = do {
     x \<leftarrow> deref h p1;
     y \<leftarrow> deref h p2;
     store h p3 (Add r x y)
   }"

text \<open>\<^verbatim>\<open>r.Add(p1, p2, p3)\<close> where \<^verbatim>\<open>p2\<close> is a local polynomial, held by value.\<close>

definition Add_local :: "'p Ring \<Rightarrow> addr \<Rightarrow> 'p \<Rightarrow> addr \<Rightarrow> 'p heap \<Rightarrow> 'p heap option" where
  "Add_local r p1 y p3 h = do {
     x \<leftarrow> deref h p1;
     store h p3 (Add r x y)
   }"

subsection \<open>RelinearizationWithSharedRelinKey\<close>

text \<open>
  The lengths of Go slices are below \<open>2^63\<close>, so the \<^verbatim>\<open>uint64\<close> arithmetic on
  \<^verbatim>\<open>k\<close> and on the indices \<^verbatim>\<open>(k+1)*i\<close>, \<^verbatim>\<open>i*(k+1)+j\<close> of slices that exist
  does not wrap; indices are natural numbers.
\<close>

definition shared_first_body ::
  "addr list \<Rightarrow> addr list \<Rightarrow> 'p Ring \<Rightarrow> nat \<Rightarrow> nat \<Rightarrow> 'p heap \<Rightarrow> 'p heap option" where
  "shared_first_body cipherParts res ringQ k i h = do {
     a \<leftarrow> index cipherParts i;
     b \<leftarrow> index cipherParts ((k + 1) * i);
     d \<leftarrow> index res i;
     Add_at ringQ a b d h
   }"

definition shared_inner_body ::
  "'p MKRelinearizationKey \<Rightarrow> 'p Parameters \<Rightarrow> addr list \<Rightarrow> addr list \<Rightarrow> addr \<Rightarrow> nat
    \<Rightarrow> nat \<Rightarrow> nat \<Rightarrow> 'p heap \<Rightarrow> 'p heap option" where
  "shared_inner_body relinKey params cipherParts res c0Prime k i j h =
     (let ringQ = GetRingQ params in do {
        cij \<leftarrow> index cipherParts (i * (k + 1) + j);
        p \<leftarrow> deref h cij;
        let decomposedIJ = GInverse params p;
        row \<leftarrow> index relinKey i;
        key \<leftarrow> index row j;
        (c0, ci, cj) \<leftarrow> applySwitchingKey decomposedIJ key params;
        h \<leftarrow> Add_local ringQ c0Prime c0 c0Prime h;
        ri \<leftarrow> index res i;
        h \<leftarrow> Add_local ringQ ri ci ri h;
        rj \<leftarrow> index res j;
        Add_local ringQ rj cj rj h
      })"

definition RelinearizationWithSharedRelinKey ::
  "'p MKRelinearizationKey \<Rightarrow> MKCiphertext \<Rightarrow> 'p Parameters \<Rightarrow> 'p heap
    \<Rightarrow> (MKCiphertext \<times> 'p heap) option" where
  "RelinearizationWithSharedRelinKey relinKey ciphertext params h0 =
     (let ringQ = GetRingQ params;
          k = length (peerIDs ciphertext);
          (res, h1) = newPolys ringQ (k + 1) h0;
          cipherParts = ciphertexts ciphertext
      in do {
        c0Prime \<leftarrow> index (ciphertexts ciphertext) 0;
        h2 \<leftarrow> foldM (shared_first_body cipherParts res ringQ k) [1..<k + 1] h1;
        h3 \<leftarrow> foldM (\<lambda>i. foldM (shared_inner_body relinKey params cipherParts res c0Prime k i)
                 [1..<k + 1]) [1..<k + 1] h2;
        Some (ciphertext\<lparr>ciphertexts := res[0 := c0Prime]\<rparr>, h3)
      })"

subsection \<open>RelinearizationOnTheFly\<close>

text \<open>
  The slice \<^verbatim>\<open>restmp\<close> and the polynomials \<^verbatim>\<open>tmpC0\<close>, \<^verbatim>\<open>tmpCi\<close>,
  \<^verbatim>\<open>tmpIJ\<close>, \<^verbatim>\<open>cIJDoublePrime\<close>, \<^verbatim>\<open>cIJPrime\<close> and \<^verbatim>\<open>tmpModDown\<close> never
  leave the function: they are held by value, and the first four are the state of the two
  nested loops. The loops read the store and do not write to it.
\<close>

definition levelQ_of :: "'p Ring \<Rightarrow> 64 word" where
  "levelQ_of ringQ = of_nat (length (Modulus ringQ)) - 1"

definition otf_inner_body ::
  "'p MKPublicKey list \<Rightarrow> 'p Parameters \<Rightarrow> addr list \<Rightarrow> 'p heap \<Rightarrow> nat \<Rightarrow> nat
    \<Rightarrow> 'p MKDecomposedPoly \<Rightarrow> 'p MKDecomposedPoly \<Rightarrow> 'p MKDecomposedPoly \<Rightarrow> nat
    \<Rightarrow> 'p list \<times> 'p \<times> 'p \<times> 'p \<Rightarrow> ('p list \<times> 'p \<times> 'p \<times> 'p) option" where
  "otf_inner_body publicKeys params cipherParts h k i di0 di1 di2 j st =
     (case st of (restmp, tmpC0, tmpCi, tmpIJ) \<Rightarrow>
        let ringQP = GetRingQP params;
            ringQ = GetRingQ params;
            levelQ = levelQ_of ringQ
        in do {
          let cIJDoublePrime = NewPoly ringQP;
          cij \<leftarrow> index cipherParts (i * (k + 1) + j);
          p \<leftarrow> deref h cij;
          let decomposedIJ = GInverse params p;
          pkj \<leftarrow> index publicKeys j;
          pkj0 \<leftarrow> index pkj 0;
          let cIJDoublePrime = Dot params decomposedIJ pkj0 cIJDoublePrime ringQP;
          let cIJPrime = ModDownPQ params levelQ cIJDoublePrime;
          let decomposedTmp = GInverse params cIJPrime;
          let tmpC0 = Dot params decomposedTmp di0 tmpC0 ringQP;
          let tmpCi = Dot params decomposedTmp di1 tmpCi ringQP;
          let cIJDoublePrime = Add ringQP cIJDoublePrime tmpC0;
          ri \<leftarrow> index restmp i;
          let restmp = restmp[i := Add ringQP ri tmpCi];
          let tmpIJ = Dot params decomposedIJ di2 tmpIJ ringQP;
          rj \<leftarrow> index restmp j;
          let restmp = restmp[j := Add ringQP rj tmpIJ];
          Some (restmp, tmpC0, tmpCi, tmpIJ)
        })"

definition otf_outer_body ::
  "'p MKEvaluationKey list \<Rightarrow> 'p MKPublicKey list \<Rightarrow> 'p Parameters \<Rightarrow> addr list \<Rightarrow> 'p heap
    \<Rightarrow> nat \<Rightarrow> nat \<Rightarrow> 'p list \<times> 'p \<times> 'p \<times> 'p \<Rightarrow> ('p list \<times> 'p \<times> 'p \<times> 'p) option" where
  "otf_outer_body evaluationKeys publicKeys params cipherParts h k i st = do {
     evk \<leftarrow> index evaluationKeys (i - 1);
     di0 \<leftarrow> index evk 0;
     di1 \<leftarrow> index evk 1;
     di2 \<leftarrow> index evk 2;
     foldM (otf_inner_body publicKeys params cipherParts h k i di0 di1 di2) [1..<k] st
   }"

definition otf_final_body ::
  "'p Parameters \<Rightarrow> addr list \<Rightarrow> addr list \<Rightarrow> 'p list \<Rightarrow> nat \<Rightarrow> nat \<Rightarrow> 'p heap
    \<Rightarrow> 'p heap option" where
  "otf_final_body params cipherParts res restmp k i h =
     (let ringQ = GetRingQ params in do {
        a \<leftarrow> index cipherParts i;
        b \<leftarrow> index cipherParts ((k + 1) * i);
        d \<leftarrow> index res i;
        h \<leftarrow> Add_at ringQ a b d h;
        r \<leftarrow> index restmp i;
        let tmpModDown = ModDownPQ params (levelQ_of ringQ) r;
        Add_local ringQ d tmpModDown d h
      })"

definition RelinearizationOnTheFly ::
  "'p MKEvaluationKey list \<Rightarrow> 'p MKPublicKey list \<Rightarrow> MKCiphertext \<Rightarrow> 'p Parameters \<Rightarrow> 'p heap
    \<Rightarrow> (MKCiphertext \<times> 'p heap) option" where
  "RelinearizationOnTheFly evaluationKeys publicKeys ciphertexts_arg params h0 =
     (let ringQP = GetRingQP params;
          ringQ = GetRingQ params;
          levelQ = levelQ_of ringQ;
          k = length evaluationKeys;
          restmp = replicate (k + 1) (NewPoly ringQP);
          (res, h1) = newPolys ringQ (k + 1) h0;
          cipherParts = ciphertexts ciphertexts_arg;
          tmpC0 = NewPoly ringQP;
          tmpCi = NewPoly ringQP;
          tmpIJ = NewPoly ringQP
      in do {
        (restmp, tmpC0, tmpCi, tmpIJ) \<leftarrow>
          foldM (otf_outer_body evaluationKeys publicKeys params cipherParts h1 k) [1..<k]
            (restmp, tmpC0, tmpCi, tmpIJ);
        let (c0Prime, h2) = (length h1, h1 @ [NewPoly ringQ]);
        r0 \<leftarrow> index restmp 0;
        let tmpModDown = ModDownPQ params levelQ r0;
        c0 \<leftarrow> index cipherParts 0;
        h3 \<leftarrow> Add_local ringQ c0 tmpModDown c0Prime h2;
        h4 \<leftarrow> foldM (otf_final_body params cipherParts res restmp k) [1..<k + 1] h3;
        Some (ciphertexts_arg\<lparr>ciphertexts := res[0 := c0Prime]\<rparr>, h4)
      })"

subsection \<open>A small ring engine for concrete runs\<close>

text \<open>
  Modelled from the spec: the ring engine (package \<^verbatim>\<open>ring\<close>), of which the sources
  at hand hold only the calls. A polynomial is the list of its coefficients modulo \<open>q\<close>;
  addition is coefficient-wise; the Montgomery multiply-accumulate adds
  \<open>x \<cdot> y \<cdot> R\<^sup>-\<^sup>1\<close> coefficient-wise, where \<open>rinv\<close> is the inverse of \<open>R = 2^64\<close>
  modulo \<open>q\<close>. The theorems below hold for every engine; this one serves to run the
  functions on concrete inputs.
\<close>

definition toyRing :: "nat \<Rightarrow> nat \<Rightarrow> nat \<Rightarrow> nat list Ring" where
  "toyRing n q rinv =
     \<lparr>Modulus = [of_nat q],
      NewPoly = replicate n 0,
      Add = (\<lambda>p1 p2. map2 (\<lambda>x y. (x + y) mod q) p1 p2),
      MulCoeffsMontgomeryAndAdd =
        (\<lambda>p1 p2 p3. map2 (\<lambda>(x, y) z. (z + x * y * rinv) mod q) (zip p1 p2) p3)\<rparr>"

text \<open>
  Sample parameters over that engine. Degree \<open>1\<close>, \<open>Q = 7\<close> and \<open>P = 5\<close>: \<open>2^64 mod 7 = 2\<close> with inverse \<open>4\<close>, and
  \<open>2^64 mod 35 = 16\<close> with inverse \<open>11\<close>. A polynomial has two digits to the base \<open>4\<close>;
  \<^verbatim>\<open>Dot\<close> accumulates the products of the digits; \<^verbatim>\<open>ModDownPQ\<close> divides by
  \<open>P\<close>, rounding.
\<close>

definition toyParams :: "nat list Parameters" where
  "toyParams =
     \<lparr>GetRingQ = toyRing 1 7 4,
      GetRingQP = toyRing 1 35 11,
      GetRingP = toyRing 1 5 1,
      Beta = 2,
      GInverse = (\<lambda>p. [map (\<lambda>x. x mod 4) p, map (\<lambda>x. x div 4) p]),
      Dot = (\<lambda>p1 p2 c r. foldl (\<lambda>acc (a, b). MulCoeffsMontgomeryAndAdd r a b acc) c (zip p1 p2)),
      ModDownPQ = (\<lambda>level p. map (\<lambda>x. ((x + 2) div 5) mod 7) p)\<rparr>"

subsection \<open>Vocabulary for the statements about relinearization\<close>

text \<open>
  The multiply-accumulate of the first \<open>n\<close> digits of \<open>d\<close> against the matching entries
  of the key component \<open>kt\<close>, into a new polynomial of the ring \<open>r\<close>.
\<close>

definition mulAccumulate :: "'p Ring \<Rightarrow> 'p list \<Rightarrow> 'p list \<Rightarrow> nat \<Rightarrow> 'p" where
  "mulAccumulate r d kt n =
     foldl (\<lambda>c i. MulCoeffsMontgomeryAndAdd r (d ! i) (kt ! i) c) (NewPoly r) [0..<n]"

text \<open>
  The key-switch inner step as the specification words it (section 4.3, step 2): a
  switching key \<open>(k0, k1)\<close> of \<open>Beta\<close> digit pairs, and two accumulators over the
  extended ring \<open>Q\<cdot>P\<close>.
\<close>

definition applySwitchingKey_spec ::
  "'p MKDecomposedPoly \<Rightarrow> 'p MKDecomposedPoly \<times> 'p MKDecomposedPoly \<Rightarrow> 'p Parameters
    \<Rightarrow> 'p \<times> 'p" where
  "applySwitchingKey_spec digits swk params =
     (case swk of (k0, k1) \<Rightarrow>
        (mulAccumulate (GetRingQP params) digits k0 (Beta params),
         mulAccumulate (GetRingQP params) digits k1 (Beta params)))"

text \<open>A switching key that \<^verbatim>\<open>applySwitchingKey\<close> can index: three components of at
  least \<open>n\<close> digits each.\<close>

definition valid_switchingKey :: "nat \<Rightarrow> 'p MKSwitchingKey \<Rightarrow> bool" where
  "valid_switchingKey n key \<longleftrightarrow>
     3 \<le> length key \<and> n \<le> length (key ! 0) \<and> n \<le> length (key ! 1) \<and> n \<le> length (key ! 2)"

text \<open>
  A ciphertext of \<open>k\<close> parties in the store \<open>h\<close>: \<open>k\<close> peer identifiers, \<open>(k+1)\<^sup>2\<close>
  components, each a polynomial object of the store.
\<close>

definition valid_ciphertext :: "nat \<Rightarrow> MKCiphertext \<Rightarrow> 'p heap \<Rightarrow> bool" where
  "valid_ciphertext k ct h \<longleftrightarrow>
     length (peerIDs ct) = k \<and>
     length (ciphertexts ct) = (k + 1) * (k + 1) \<and>
     list_all (\<lambda>a. a < length h) (ciphertexts ct)"

text \<open>
  A relinearization key that the shared-key variant can index at every \<open>key[i][j]\<close> with
  \<open>1 \<le> i, j \<le> k\<close>, each entry a switching key of \<open>n\<close> digits.
\<close>

definition valid_relinKey :: "nat \<Rightarrow> nat \<Rightarrow> 'p MKRelinearizationKey \<Rightarrow> bool" where
  "valid_relinKey k n relinKey \<longleftrightarrow>
     list_all (\<lambda>i. i < length relinKey \<and>
         list_all (\<lambda>j. j < length (relinKey ! i) \<and> valid_switchingKey n (relinKey ! i ! j))
           [1..<k + 1])
       [1..<k + 1]"

text \<open>The key sets of the on-the-fly variant: one evaluation key of three components and
  one public key of at least one component per party.\<close>

definition valid_evaluationKeys :: "nat \<Rightarrow> 'p MKEvaluationKey list \<Rightarrow> bool" where
  "valid_evaluationKeys k evaluationKeys \<longleftrightarrow>
     length evaluationKeys = k \<and> list_all (\<lambda>evk. 3 \<le> length evk) evaluationKeys"

definition valid_publicKeys :: "nat \<Rightarrow> 'p MKPublicKey list \<Rightarrow> bool" where
  "valid_publicKeys k publicKeys \<longleftrightarrow>
     length publicKeys = k \<and> list_all (\<lambda>pk. 1 \<le> length pk) publicKeys"

text \<open>
  The contributions to the constant term that the shared-key variant accumulates, in the
  order of its two nested loops: for each pair \<open>(i, j)\<close>, the first accumulator of the key
  switch of the cross term \<open>c[i][j]\<close>, read from the store \<open>h\<close>.
\<close>

definition crossConstant ::
  "'p MKRelinearizationKey \<Rightarrow> 'p Parameters \<Rightarrow> addr list \<Rightarrow> 'p heap \<Rightarrow> nat \<Rightarrow> nat \<times> nat
    \<Rightarrow> 'p" where
  "crossConstant relinKey params cipherParts h k ij =
     (case ij of (i, j) \<Rightarrow>
        mulAccumulate (GetRingQ params)
          (GInverse params (h ! (cipherParts ! (i * (k + 1) + j))))
          (relinKey ! i ! j ! 0) (Beta params))"

definition crossConstants ::
  "'p MKRelinearizationKey \<Rightarrow> 'p Parameters \<Rightarrow> addr list \<Rightarrow> 'p heap \<Rightarrow> nat \<Rightarrow> 'p list" where
  "crossConstants relinKey params cipherParts h k =
     map (crossConstant relinKey params cipherParts h k)
       (List.product [1..<k + 1] [1..<k + 1])"




subsection \<open>Concrete keys and ciphertexts\<close>

text \<open>
  A switching key over the small engine, without noise, for the secret \<open>s = 3\<close>
  (so \<open>s\<^sup>2 = 2\<close> modulo \<open>7\<close>) and the gadget \<open>(1, 4)\<close>: in Montgomery form, with true
  values \<open>K0 = (4, 1)\<close>, \<open>K1 = (1, 2)\<close>, \<open>K2 = (3, 5)\<close>, so that
  \<open>K0 + K1 \<cdot> s + K2 \<cdot> s = (1, 4) \<cdot> s\<^sup>2\<close> digit by digit.
\<close>

definition toySwitchingKey :: "nat list MKSwitchingKey" where
  "toySwitchingKey = [[[1], [2]], [[2], [4]], [[6], [3]]]"

text \<open>One party: the ciphertext \<open>(c00, c01, c10, c11) = (3, 5, 6, 2)\<close> at the addresses
  \<open>0..3\<close> of the store, and the same with the cross term \<open>c11 = 4\<close>.\<close>

definition toyCiphertext :: MKCiphertext where
  "toyCiphertext = \<lparr>ciphertexts = [0, 1, 2, 3], peerIDs = [7]\<rparr>"

definition toyStore :: "nat list heap" where
  "toyStore = [[3], [5], [6], [2]]"

definition toyStore' :: "nat list heap" where
  "toyStore' = [[3], [5], [6], [4]]"

definition toyRelinKey :: "nat list MKRelinearizationKey" where
  "toyRelinKey = [[], [[], toySwitchingKey]]"

definition toyEvaluationKeys :: "nat list MKEvaluationKey list" where
  "toyEvaluationKeys = [toySwitchingKey]"

definition toyPublicKeys :: "nat list MKPublicKey list" where
  "toyPublicKeys = [[[[2], [5]], [[1], [1]]]]"




definition toyEvaluationKeys2 :: "nat list MKEvaluationKey list" where
  "toyEvaluationKeys2 = [toySwitchingKey, toySwitchingKey]"

definition toyPublicKeys2 :: "nat list MKPublicKey list" where
  "toyPublicKeys2 = [[[[2], [5]], [[1], [1]]], [[[3], [1]], [[4], [2]]]]"

text \<open>The polynomials a run leaves in the components of the ciphertext.\<close>

definition resultPolys :: "(MKCiphertext \<times> 'p heap) option \<Rightarrow> 'p list" where
  "resultPolys r = (case r of None \<Rightarrow> [] | Some (ct, h) \<Rightarrow> map (\<lambda>a. h ! a) (ciphertexts ct))"

text \<open>
  Modelled from the spec: the joint decryption of a ciphertext of \<open>k + 1\<close> components
  (slot 0 the constant term, slots \<open>1..k\<close> each party's linear term) under the \<open>k\<close>
  secrets, here without noise and in the ring of degree \<open>1\<close> modulo \<open>7\<close>:
  \<open>c\<^sub>0 + c\<^sub>1 \<cdot> s\<^sub>1 + \<dots> + c\<^sub>k \<cdot> s\<^sub>k\<close>. Decryption is not part of the sources at hand.
\<close>

definition toyDecrypt :: "nat list \<Rightarrow> nat list list \<Rightarrow> nat" where
  "toyDecrypt secrets polys = sum_list (map2 (\<lambda>c s. hd c * s) polys (1 # secrets)) mod 7"


section \<open>Level and scale bookkeeping of the evaluator (ckks)\<close>

text \<open>
  Modelled from the spec: the error kinds of section 7. The evaluator of package
  \<^verbatim>\<open>ckks\<close> is missing from the sources, which hold only its tests
  (\<^verbatim>\<open>ckks/ckks_test.go\<close>), so its errors are too.
\<close>

datatype error =
    LevelMismatch
  | ScaleMismatch
  | DegreeMismatch
  | MissingKey
  | SerializationError
  | ParameterInvalid

text \<open>
  Modelled from the spec: the \<^verbatim>\<open>Ciphertext\<close> of section 3, an ordered vector of
  \<open>degree + 1\<close> ring elements at a \<open>level\<close>, plus a \<open>scale\<close>, a positive real. The
  evaluator's data types are missing from the sources.
\<close>

record 'p Ciphertext =
  Value :: "'p list"
  level :: nat
  scale :: real

text \<open>
  Modelled from the spec: \<^verbatim>\<open>Rescale\<close>, missing from the sources. Section 4.2:
  precondition \<open>level \<ge> 1\<close>; effect \<open>level -= 1; scale /= q_level\<close>, the modulus just
  dropped; a level that would go negative is a \<open>LevelMismatch\<close> (section 7). \<open>Q\<close> is the
  modulus chain \<open>[q\<^sub>0, \<dots>, q\<^sub>L]\<close>; dividing the ring elements by the dropped modulus is
  the ring engine's, the parameter \<open>divRound\<close>.
\<close>

definition Rescale :: "nat list \<Rightarrow> ('p \<Rightarrow> 'p) \<Rightarrow> 'p Ciphertext \<Rightarrow> error + 'p Ciphertext" where
  "Rescale Q divRound ct =
     (if 1 \<le> level ct
      then Inr (ct\<lparr>Value := map divRound (Value ct),
                   level := level ct - 1,
                   scale := scale ct / real (Q ! level ct)\<rparr>)
      else Inl LevelMismatch)"

text \<open>
  Modelled from the spec: the \<open>n\<close> repetitions of \<^verbatim>\<open>Rescale\<close> that section 4.2
  gives as the effect of \<^verbatim>\<open>RescaleMany(n)\<close>, missing from the sources; the first
  failure ends them.
\<close>

fun repeatRescale ::
  "nat list \<Rightarrow> ('p \<Rightarrow> 'p) \<Rightarrow> nat \<Rightarrow> 'p Ciphertext \<Rightarrow> error + 'p Ciphertext" where
  "repeatRescale Q divRound 0 ct = Inr ct"
| "repeatRescale Q divRound (Suc n) ct =
     (case Rescale Q divRound ct of
        Inl e \<Rightarrow> Inl e
      | Inr ct' \<Rightarrow> repeatRescale Q divRound n ct')"

text \<open>
  Modelled from the spec: \<^verbatim>\<open>RescaleMany\<close>, missing from the sources. Section 4.2:
  precondition \<open>level \<ge> n\<close>; effect: \<open>n\<close> repetitions of \<^verbatim>\<open>Rescale\<close>.
\<close>

definition RescaleMany ::
  "nat list \<Rightarrow> ('p \<Rightarrow> 'p) \<Rightarrow> nat \<Rightarrow> 'p Ciphertext \<Rightarrow> error + 'p Ciphertext" where
  "RescaleMany Q divRound n ct =
     (if n \<le> level ct then repeatRescale Q divRound n ct else Inl LevelMismatch)"

text \<open>The moduli that \<open>n\<close> rescalings drop from level \<open>l\<close>: \<open>q\<^sub>l, q\<^sub>l\<^sub>-\<^sub>1, \<dots>, q\<^sub>l\<^sub>-\<^sub>n\<^sub>+\<^sub>1\<close>.\<close>

definition droppedModuli :: "nat list \<Rightarrow> nat \<Rightarrow> nat \<Rightarrow> nat list" where
  "droppedModuli Q l n = map (\<lambda>i. Q ! i) (rev [l + 1 - n..<l + 1])"

section \<open>Collective public-key generation (dbfv)\<close>

text \<open>
  The protocol \<^verbatim>\<open>CKGProtocol\<close> of package \<^verbatim>\<open>dbfv\<close> is not part of the sources at
  hand, only its test \<^verbatim>\<open>testPublicKeyGen\<close> is. A ring element is held in the NTT
  representation, as the list of its residues modulo \<open>q\<close>, where the ring operations are
  coefficient-wise; the residue-number-system limbs are independent of each other, so one
  modulus stands for the chain.
\<close>

type_synonym poly = "int list"

text \<open>Modelled from the spec: the ring engine's coefficient-wise operations modulo \<open>q\<close>
  (section 6); the package \<^verbatim>\<open>ring\<close> is missing from the sources.\<close>

definition addQ :: "int \<Rightarrow> poly \<Rightarrow> poly \<Rightarrow> poly" where
  "addQ q p1 p2 = map2 (\<lambda>x y. (x + y) mod q) p1 p2"

definition mulQ :: "int \<Rightarrow> poly \<Rightarrow> poly \<Rightarrow> poly" where
  "mulQ q p1 p2 = map2 (\<lambda>x y. (x * y) mod q) p1 p2"

definition negQ :: "int \<Rightarrow> poly \<Rightarrow> poly" where
  "negQ q p = map (\<lambda>x. (- x) mod q) p"

text \<open>
  Modelled from the spec: \<^verbatim>\<open>GenShare\<close>, missing from the sources. Section 4.5: each
  party computes \<open>share\<^sub>i = -a\<cdot>s\<^sub>i + e\<^sub>i\<close> over the common reference polynomial \<open>a\<close>
  (\<^verbatim>\<open>crp\<close>); the error \<open>e\<^sub>i\<close> that the party samples is an argument here.
\<close>

definition GenShare :: "int \<Rightarrow> poly \<Rightarrow> poly \<Rightarrow> poly \<Rightarrow> poly" where
  "GenShare q sk crp e = addQ q (negQ q (mulQ q crp sk)) e"

text \<open>
  Modelled from the spec: \<^verbatim>\<open>AggregateShares(share1, share2, shareOut)\<close>, missing from
  the sources. Section 3: shares combine by polynomial addition modulo \<open>Q\<close>.
\<close>

definition AggregateShares :: "int \<Rightarrow> poly \<Rightarrow> poly \<Rightarrow> poly" where
  "AggregateShares q share1 share2 = addQ q share1 share2"

text \<open>
  Modelled from the spec: \<^verbatim>\<open>GenPublicKey(share, crp, pk)\<close>, missing from the sources.
  Section 4.5: the shares sum to the \<open>b\<close> component of the joint public key \<open>(b, a)\<close>.
\<close>

definition GenPublicKey :: "poly \<Rightarrow> poly \<Rightarrow> poly \<times> poly" where
  "GenPublicKey share crp = (share, crp)"

text \<open>
  The loop of \<^verbatim>\<open>testPublicKeyGen\<close>: the parties generate their shares in the order of
  the slice, and every share but the first is aggregated into the share of the first party,
  \<^verbatim>\<open>P0.AggregateShares(p.s1, P0.s1, P0.s1)\<close>. Without a party, \<^verbatim>\<open>ckgParties[0]\<close>
  panics. A party is the pair of its secret-key shard and the error it samples.
\<close>

definition aggregateAll :: "int \<Rightarrow> poly list \<Rightarrow> poly option" where
  "aggregateAll q shares =
     (case shares of
        [] \<Rightarrow> None
      | s0 # rest \<Rightarrow> Some (fold (\<lambda>s1 acc. AggregateShares q s1 acc) rest s0))"

definition collectivePublicKey :: "int \<Rightarrow> poly \<Rightarrow> (poly \<times> poly) list \<Rightarrow> (poly \<times> poly) option" where
  "collectivePublicKey q crp parties =
     map_option (\<lambda>share. GenPublicKey share crp)
       (aggregateAll q (map (\<lambda>(sk, e). GenShare q sk crp e) parties))"

text \<open>
  The joint secret of \<^verbatim>\<open>genDBFVContext\<close>: the shards are added, one after the other,
  to a new polynomial (\<^verbatim>\<open>Add(tmp0, sk0Shards[j].Get(), tmp0)\<close>); \<open>n\<close> is the number of
  residues of a ring element.
\<close>

definition sumPolys :: "int \<Rightarrow> nat \<Rightarrow> poly list \<Rightarrow> poly" where
  "sumPolys q n ps = fold (\<lambda>p tmp. addQ q tmp p) ps (replicate n 0)"

text \<open>Three parties over two residues modulo \<open>7\<close>, in two orders of arrival, with their
  shares for the common reference polynomial \<open>(3, 5)\<close>.\<close>

definition toyCrp :: poly where
  "toyCrp = [3, 5]"

definition toyParties :: "(poly \<times> poly) list" where
  "toyParties = [([1, 0], [1, 6]), ([0, 1], [0, 1]), ([6, 1], [1, 0])]"

definition toyParties' :: "(poly \<times> poly) list" where
  "toyParties' = [([0, 1], [0, 1]), ([6, 1], [1, 0]), ([1, 0], [1, 6])]"

definition toyShares :: "poly list" where
  "toyShares = map (\<lambda>(sk, e). GenShare 7 sk toyCrp e) toyParties"

definition toyShares' :: "poly list" where
  "toyShares' = map (\<lambda>(sk, e). GenShare 7 sk toyCrp e) toyParties'"

section \<open>Properties of the multi-key relinearization\<close>

subsection \<open>Loops that may panic\<close>

lemma foldM_append:
  "foldM f (xs @ ys) s = (case foldM f xs s of None \<Rightarrow> None | Some s' \<Rightarrow> foldM f ys s')"
  by (induction xs arbitrary: s) (auto split: option.splits)

lemma foldM_total:
  assumes "I s" and "\<And>x t. x \<in> set xs \<Longrightarrow> I t \<Longrightarrow> \<exists>t'. f x t = Some t' \<and> I t'"
  shows "\<exists>s'. foldM f xs s = Some s' \<and> I s'"
  using assms
proof (induction xs arbitrary: s)
  case Nil
  then show ?case by simp
next
  case (Cons x xs)
  from Cons.prems obtain t where t: "f x s = Some t" "I t"
    by (meson list.set_intros(1))
  have "\<exists>s'. foldM f xs t = Some s' \<and> I s'"
    by (rule Cons.IH [OF t(2)]) (use Cons.prems(2) in auto)
  with t show ?case by simp
qed

lemma foldM_preserves:
  assumes "foldM f xs s = Some s'" and "I s"
    and "\<And>x t t'. x \<in> set xs \<Longrightarrow> I t \<Longrightarrow> f x t = Some t' \<Longrightarrow> I t'"
  shows "I s'"
  using assms
proof (induction xs arbitrary: s)
  case Nil
  then show ?case by simp
next
  case (Cons x xs)
  from Cons.prems(1) obtain t where t: "f x s = Some t" "foldM f xs t = Some s'"
    by (auto split: option.splits)
  have "I t"
    using Cons.prems(3) [of x s t] t(1) Cons.prems(2) by simp
  then show ?case
    using Cons.IH [OF t(2)] Cons.prems(3) by auto
qed

subsection \<open>applySwitchingKey\<close>

lemma applySwitchingKey_loop:
  assumes "n \<le> length d" and "3 \<le> length key"
    and "n \<le> length (key ! 0)" and "n \<le> length (key ! 1)" and "n \<le> length (key ! 2)"
  shows "foldM (applySwitchingKey_body d key r) [0..<n] (NewPoly r, NewPoly r, NewPoly r)
       = Some (mulAccumulate r d (key ! 0) n, mulAccumulate r d (key ! 1) n,
               mulAccumulate r d (key ! 2) n)"
  using assms
proof (induction n)
  case 0
  then show ?case by (simp add: mulAccumulate_def)
next
  case (Suc n)
  then show ?case
    by (auto simp: foldM_append applySwitchingKey_body_def index_def mulAccumulate_def)
qed

lemma applySwitchingKey_value:
  assumes "Beta params \<le> length decomposedCipher"
    and "valid_switchingKey (Beta params) key"
  shows "applySwitchingKey decomposedCipher key params =
     Some (mulAccumulate (GetRingQ params) decomposedCipher (key ! 0) (Beta params),
           mulAccumulate (GetRingQ params) decomposedCipher (key ! 1) (Beta params),
           mulAccumulate (GetRingQ params) decomposedCipher (key ! 2) (Beta params))"
  using assms applySwitchingKey_loop [of "Beta params" decomposedCipher key "GetRingQ params"]
  by (simp add: applySwitchingKey_def valid_switchingKey_def Let_def)

text \<open>
  Claim C2, as the code has it. For every decomposed ciphertext with at least \<open>Beta\<close>
  digits and every switching key whose three components hold at least \<open>Beta\<close> digits
  each, \<^verbatim>\<open>applySwitchingKey\<close> returns three accumulators \<open>(c0, ci, cj)\<close>: for each
  digit index \<open>i\<close> in \<open>[0, Beta)\<close> it performs one Montgomery multiply-accumulate of the
  ring \<open>Q\<close> of digit \<open>i\<close> against \<open>key[0][i]\<close> into \<open>c0\<close>, against \<open>key[1][i]\<close> into
  \<open>ci\<close> and against \<open>key[2][i]\<close> into \<open>cj\<close>, each accumulator starting as a new
  polynomial of the ring \<open>Q\<close>.
\<close>

theorem applySwitchingKey_three_accumulators:
  assumes "Beta params \<le> length decomposedCipher"
    and "valid_switchingKey (Beta params) key"
  shows "applySwitchingKey decomposedCipher key params =
     Some (mulAccumulate (GetRingQ params) decomposedCipher (key ! 0) (Beta params),
           mulAccumulate (GetRingQ params) decomposedCipher (key ! 1) (Beta params),
           mulAccumulate (GetRingQ params) decomposedCipher (key ! 2) (Beta params))"
  using assms by (rule applySwitchingKey_value)

theorem applySwitchingKey_three_accumulators_witness:
  "Beta toyParams \<le> length [[3], [1::nat]] \<and>
   valid_switchingKey (Beta toyParams) [[[2], [5]], [[1], [3]], [[6], [1::nat]]] \<and>
   applySwitchingKey [[3], [1]] [[[2], [5]], [[1], [3]], [[6], [1]]] toyParams =
     Some ([2], [3], [6])"
proof -
  have digits: "Beta toyParams \<le> length [[3], [1::nat]]"
    by (simp add: toyParams_def)
  have key: "valid_switchingKey (Beta toyParams) [[[2], [5]], [[1], [3]], [[6], [1::nat]]]"
    by (simp add: valid_switchingKey_def toyParams_def)
  show ?thesis
    using digits key applySwitchingKey_three_accumulators [OF digits key]
    by (simp add: mulAccumulate_def toyParams_def toyRing_def upt_rec)
qed

text \<open>
  Claim C2, as the specification words it, fails: on the digits \<open>3, 1\<close> and the key
  below the code returns the accumulators \<open>2, 3\<close> (sums modulo \<open>Q = 7\<close>) where the two
  accumulators over \<open>Q\<cdot>P\<close> are \<open>16, 31\<close>, and it returns a third accumulator, \<open>6\<close>,
  which is not a new polynomial.
\<close>

theorem applySwitchingKey_spec_counterexample:
  "applySwitchingKey [[3], [1]] [[[2], [5]], [[1], [3]], [[6], [1]]] toyParams =
     Some ([2], [3], [6]) \<and>
   applySwitchingKey_spec [[3], [1]] ([[2], [5]], [[1], [3]]) toyParams = ([16], [31]) \<and>
   ([2], [3]) \<noteq> ([16], [31::nat]) \<and>
   [6] \<noteq> NewPoly (GetRingQ toyParams)"
  by (simp add: applySwitchingKey_def applySwitchingKey_body_def applySwitchingKey_spec_def
      mulAccumulate_def toyParams_def toyRing_def index_def upt_rec)

subsection \<open>Nested loops, indices and the store\<close>

lemma foldM_map_Pair:
  "foldM (\<lambda>(i, j). f i j) (map (Pair x) ys) s = foldM (f x) ys s"
  by (induction ys arbitrary: s) (auto split: option.splits)

lemma foldM_nested:
  "foldM (\<lambda>i. foldM (f i) ys) xs s = foldM (\<lambda>(i, j). f i j) (List.product xs ys) s"
  by (induction xs arbitrary: s) (auto simp: foldM_append foldM_map_Pair split: option.splits)

lemma foldM_prefix_total:
  assumes "I [] s"
    and "\<And>ys x zs t. xs = ys @ x # zs \<Longrightarrow> I ys t \<Longrightarrow> \<exists>t'. f x t = Some t' \<and> I (ys @ [x]) t'"
  shows "\<exists>s'. foldM f xs s = Some s' \<and> I xs s'"
  using assms(2)
proof (induction xs rule: rev_induct)
  case Nil
  then show ?case using assms(1) by simp
next
  case (snoc x xs)
  have "\<exists>s'. foldM f xs s = Some s' \<and> I xs s'"
  proof (rule snoc.IH)
    fix ys y zs t
    assume "xs = ys @ y # zs" "I ys t"
    then show "\<exists>t'. f y t = Some t' \<and> I (ys @ [y]) t'"
      using snoc.prems [of ys y "zs @ [x]" t] by simp
  qed
  then obtain t where t: "foldM f xs s = Some t" "I xs t" by blast
  from snoc.prems [of xs x "[]" t] t(2) obtain t' where "f x t = Some t'" "I (xs @ [x]) t'"
    by auto
  with t show ?case by (simp add: foldM_append)
qed

lemma index_bound:
  assumes "i \<le> k" and "j \<le> k"
  shows "i * (k + 1) + j < (k + 1) * (k + 1 :: nat)"
proof -
  from assms(1) have "i * (k + 1) \<le> k * (k + 1)"
    by (rule mult_le_mono1)
  with assms(2) show ?thesis by simp
qed

lemma index_bound':
  assumes "i \<le> k"
  shows "(k + 1) * i < (k + 1) * (k + 1 :: nat)"
proof -
  from assms have "i < k + 1" by simp
  then show ?thesis by (rule mult_less_mono2) simp
qed

lemma Add_at_Some:
  "p1 < length h \<Longrightarrow> p2 < length h \<Longrightarrow> p3 < length h \<Longrightarrow>
   Add_at r p1 p2 p3 h = Some (h[p3 := Add r (h ! p1) (h ! p2)])"
  by (simp add: Add_at_def deref_def store_def)

lemma Add_local_Some:
  "p1 < length h \<Longrightarrow> p3 < length h \<Longrightarrow>
   Add_local r p1 y p3 h = Some (h[p3 := Add r (h ! p1) y])"
  by (simp add: Add_local_def deref_def store_def)

lemma shared_first_loop:
  assumes len: "length cipherParts = (k + 1) * (k + 1)"
    and addrs: "\<forall>a \<in> set cipherParts. a < L"
    and h1: "length h1 = L + k + 1"
  shows "\<exists>h2. foldM (shared_first_body cipherParts [L..<L + (k + 1)] ringQ k) [1..<k + 1] h1 = Some h2
      \<and> length h2 = L + k + 1 \<and> (\<forall>a<L. h2 ! a = h1 ! a)"
proof (rule foldM_total [where I = "\<lambda>h. length h = L + k + 1 \<and> (\<forall>a<L. h ! a = h1 ! a)"])
  show "length h1 = L + k + 1 \<and> (\<forall>a<L. h1 ! a = h1 ! a)" using h1 by simp
next
  fix i t
  assume i: "i \<in> set [1..<k + 1]" and t: "length t = L + k + 1 \<and> (\<forall>a<L. t ! a = h1 ! a)"
  from i have ik: "1 \<le> i" "i \<le> k" by auto
  have i1: "i < length cipherParts" using ik len index_bound [of 0 k i] by simp
  have i2: "(k + 1) * i < length cipherParts" using ik len index_bound' [of i k] by simp
  have a1: "cipherParts ! i < L" using addrs i1 by simp
  have a2: "cipherParts ! ((k + 1) * i) < L" using addrs i2 nth_mem by blast
  have "shared_first_body cipherParts [L..<L + (k + 1)] ringQ k i t =
      Some (t[L + i := Add ringQ (t ! (cipherParts ! i)) (t ! (cipherParts ! ((k + 1) * i)))])"
    using i1 i2 a1 a2 ik t
    by (simp add: shared_first_body_def index_def Add_at_Some del: upt_Suc)
  then show "\<exists>t'. shared_first_body cipherParts [L..<L + (k + 1)] ringQ k i t = Some t' \<and>
      (length t' = L + k + 1 \<and> (\<forall>a<L. t' ! a = h1 ! a))"
    using t by simp
qed


lemma shared_inner_body_Some:
  assumes "i * (k + 1) + j < length cipherParts"
    and "cipherParts ! (i * (k + 1) + j) < length h"
    and "i < length relinKey" and "j < length (relinKey ! i)"
    and "valid_switchingKey (Beta params) (relinKey ! i ! j)"
    and "Beta params \<le> length (GInverse params (h ! (cipherParts ! (i * (k + 1) + j))))"
    and "c0Prime < length h"
    and "i < length res" and "j < length res"
    and "res ! i < length h" and "res ! j < length h"
  shows "shared_inner_body relinKey params cipherParts res c0Prime k i j h =
     Some (let ringQ = GetRingQ params;
               d = GInverse params (h ! (cipherParts ! (i * (k + 1) + j)));
               key = relinKey ! i ! j;
               h1 = h[c0Prime := Add ringQ (h ! c0Prime) (mulAccumulate ringQ d (key ! 0) (Beta params))];
               h2 = h1[res ! i := Add ringQ (h1 ! (res ! i)) (mulAccumulate ringQ d (key ! 1) (Beta params))]
           in h2[res ! j := Add ringQ (h2 ! (res ! j)) (mulAccumulate ringQ d (key ! 2) (Beta params))])"
  using assms
  by (simp add: shared_inner_body_def index_def deref_def applySwitchingKey_value
      Add_local_Some Let_def)

lemma valid_relinKeyD:
  assumes "valid_relinKey k n relinKey" and "1 \<le> i" and "i \<le> k" and "1 \<le> j" and "j \<le> k"
  shows "i < length relinKey \<and> j < length (relinKey ! i) \<and> valid_switchingKey n (relinKey ! i ! j)"
proof -
  have "\<forall>i \<in> set [1..<k + 1]. i < length relinKey \<and>
      (\<forall>j \<in> set [1..<k + 1]. j < length (relinKey ! i) \<and> valid_switchingKey n (relinKey ! i ! j))"
    using assms(1) unfolding valid_relinKey_def list_all_iff .
  moreover have "i \<in> set [1..<k + 1]" "j \<in> set [1..<k + 1]"
    using assms(2-5) by auto
  ultimately show ?thesis by blast
qed

lemma shared_second_loop:
  assumes len: "length cipherParts = (k + 1) * (k + 1)"
    and addrs: "\<forall>a \<in> set cipherParts. a < L"
    and key: "valid_relinKey k (Beta params) relinKey"
    and ginv: "\<forall>p. Beta params \<le> length (GInverse params p)"
    and h2: "length h2 = L + k + 1" "\<forall>a<L. h2 ! a = h0 ! a"
    and c0: "c0 = cipherParts ! 0"
  shows "\<exists>h3. foldM (\<lambda>(i, j). shared_inner_body relinKey params cipherParts [L..<L + (k + 1)] c0 k i j)
             (List.product [1..<k + 1] [1..<k + 1]) h2 = Some h3
      \<and> length h3 = L + k + 1
      \<and> (\<forall>a<L. a \<noteq> c0 \<longrightarrow> h3 ! a = h0 ! a)
      \<and> (c0 \<notin> set (tl cipherParts) \<longrightarrow>
           h3 ! c0 = foldl (Add (GetRingQ params)) (h0 ! c0)
             (map (crossConstant relinKey params cipherParts h0 k) (List.product [1..<k + 1] [1..<k + 1])))"
    (is "\<exists>h3. foldM ?f ?ps h2 = Some h3 \<and> ?I ?ps h3")
proof (rule foldM_prefix_total [where I = ?I])
  have "c0 < L" using addrs len c0 by (simp add: nth_mem)
  then show "?I [] h2" using h2 by simp
next
  fix ys x zs t
  assume split: "?ps = ys @ x # zs" and inv: "?I ys t"
  obtain i j where x: "x = (i, j)" by (cases x)
  have "x \<in> set ?ps" using split by simp
  then have ij: "1 \<le> i" "i \<le> k" "1 \<le> j" "j \<le> k" using x by auto
  let ?n = "i * (k + 1) + j"
  have n: "?n < length cipherParts" using ij len index_bound [of i k j] by simp
  have cL: "c0 < L" using addrs len c0 by (simp add: nth_mem)
  have aL: "cipherParts ! ?n < L" using addrs n nth_mem by blast
  have ki: "i < length relinKey" and kj: "j < length (relinKey ! i)"
    and kv: "valid_switchingKey (Beta params) (relinKey ! i ! j)"
    using valid_relinKeyD [OF key ij] by simp_all
  have tl: "cipherParts ! ?n \<in> set (tl cipherParts)"
  proof -
    have "?n \<noteq> 0" using ij by simp
    then obtain m where m: "?n = Suc m" using not0_implies_Suc by blast
    have mlen: "m < length (tl cipherParts)" using n m by simp
    then have "tl cipherParts ! m = cipherParts ! ?n" using m by (simp add: nth_tl)
    then show ?thesis using mlen by (metis nth_mem)
  qed
  let ?ringQ = "GetRingQ params"
  let ?d = "GInverse params (t ! (cipherParts ! ?n))"
  let ?key = "relinKey ! i ! j"
  let ?t1 = "t[c0 := Add ?ringQ (t ! c0) (mulAccumulate ?ringQ ?d (?key ! 0) (Beta params))]"
  let ?t2 = "?t1[L + i := Add ?ringQ (?t1 ! (L + i)) (mulAccumulate ?ringQ ?d (?key ! 1) (Beta params))]"
  let ?t3 = "?t2[L + j := Add ?ringQ (?t2 ! (L + j)) (mulAccumulate ?ringQ ?d (?key ! 2) (Beta params))]"
  have step: "?f x t = Some ?t3"
    using shared_inner_body_Some [of i k j cipherParts t relinKey params c0 "[L..<L + (k + 1)]"]
      n aL ki kj kv ginv cL ij inv x
    by (simp add: Let_def del: upt_Suc)
  have "length ?t3 = L + k + 1" using inv by simp
  moreover have "\<forall>a<L. a \<noteq> c0 \<longrightarrow> ?t3 ! a = h0 ! a" using inv by simp
  moreover have "c0 \<notin> set (tl cipherParts) \<longrightarrow>
      ?t3 ! c0 = foldl (Add ?ringQ) (h0 ! c0) (map (crossConstant relinKey params cipherParts h0 k) (ys @ [x]))"
  proof
    assume fresh: "c0 \<notin> set (tl cipherParts)"
    then have ne: "cipherParts ! ?n \<noteq> c0" using tl by auto
    then have e1: "t ! (cipherParts ! ?n) = h0 ! (cipherParts ! ?n)" using inv aL by simp
    have e2: "?t3 ! c0 = Add ?ringQ (t ! c0) (mulAccumulate ?ringQ ?d (?key ! 0) (Beta params))"
      using cL inv by simp
    have e3: "t ! c0 = foldl (Add ?ringQ) (h0 ! c0) (map (crossConstant relinKey params cipherParts h0 k) ys)"
      using inv fresh by simp
    have e4: "mulAccumulate ?ringQ ?d (?key ! 0) (Beta params) = crossConstant relinKey params cipherParts h0 k x"
      using x e1 by (simp add: crossConstant_def)
    note e2
    also have "Add ?ringQ (t ! c0) (mulAccumulate ?ringQ ?d (?key ! 0) (Beta params)) =
        Add ?ringQ (foldl (Add ?ringQ) (h0 ! c0) (map (crossConstant relinKey params cipherParts h0 k) ys))
          (crossConstant relinKey params cipherParts h0 k x)"
      by (simp only: e3 e4)
    also have "\<dots> = foldl (Add ?ringQ) (h0 ! c0)
        (map (crossConstant relinKey params cipherParts h0 k) (ys @ [x]))"
      by simp
    finally show "?t3 ! c0 = foldl (Add ?ringQ) (h0 ! c0)
        (map (crossConstant relinKey params cipherParts h0 k) (ys @ [x]))" .
  qed
  ultimately show "\<exists>t'. ?f x t = Some t' \<and> ?I (ys @ [x]) t'"
    using step by blast
qed


lemma upt_update_0: "[L..<Suc (L + k)][0 := c] = c # [Suc L..<Suc (L + k)]"
  by (simp add: upt_conv_Cons del: upt_Suc)

lemma shared_run:
  assumes ct: "valid_ciphertext k ciphertext h0"
    and key: "valid_relinKey k (Beta params) relinKey"
    and ginv: "\<forall>p. Beta params \<le> length (GInverse params p)"
  shows "\<exists>h'. RelinearizationWithSharedRelinKey relinKey ciphertext params h0 =
        Some (ciphertext\<lparr>ciphertexts :=
                ciphertexts ciphertext ! 0 # [length h0 + 1..<length h0 + k + 1]\<rparr>, h')
      \<and> length h' = length h0 + k + 1
      \<and> (\<forall>a<length h0. a \<noteq> ciphertexts ciphertext ! 0 \<longrightarrow> h' ! a = h0 ! a)
      \<and> (ciphertexts ciphertext ! 0 \<notin> set (tl (ciphertexts ciphertext)) \<longrightarrow>
           h' ! (ciphertexts ciphertext ! 0) =
             foldl (Add (GetRingQ params)) (h0 ! (ciphertexts ciphertext ! 0))
               (crossConstants relinKey params (ciphertexts ciphertext) h0 k))"
proof -
  let ?cp = "ciphertexts ciphertext"
  let ?L = "length h0"
  let ?h1 = "h0 @ replicate (k + 1) (NewPoly (GetRingQ params))"
  from ct have k: "length (peerIDs ciphertext) = k"
    and len: "length ?cp = (k + 1) * (k + 1)"
    and addrs: "\<forall>a \<in> set ?cp. a < ?L"
    by (simp_all add: valid_ciphertext_def list_all_iff)
  have ne: "0 < length ?cp" using len by simp
  obtain h2 where h2: "foldM (shared_first_body ?cp [?L..<?L + (k + 1)] (GetRingQ params) k)
        [1..<k + 1] ?h1 = Some h2"
    "length h2 = ?L + k + 1" "\<forall>a<?L. h2 ! a = ?h1 ! a"
    using shared_first_loop [OF len addrs, of ?h1 "GetRingQ params"] by auto
  have h2': "\<forall>a<?L. h2 ! a = h0 ! a" using h2(3) by (simp add: nth_append)
  obtain h3 where h3: "foldM (\<lambda>(i, j). shared_inner_body relinKey params ?cp [?L..<?L + (k + 1)] (?cp ! 0) k i j)
             (List.product [1..<k + 1] [1..<k + 1]) h2 = Some h3"
    "length h3 = ?L + k + 1" "\<forall>a<?L. a \<noteq> ?cp ! 0 \<longrightarrow> h3 ! a = h0 ! a"
    "?cp ! 0 \<notin> set (tl ?cp) \<longrightarrow>
           h3 ! (?cp ! 0) = foldl (Add (GetRingQ params)) (h0 ! (?cp ! 0))
             (map (crossConstant relinKey params ?cp h0 k) (List.product [1..<k + 1] [1..<k + 1]))"
    using shared_second_loop [OF len addrs key ginv h2(2) h2' refl] by blast
  have "RelinearizationWithSharedRelinKey relinKey ciphertext params h0 =
        Some (ciphertext\<lparr>ciphertexts := ?cp ! 0 # [?L + 1..<?L + k + 1]\<rparr>, h3)"
    using k ne h2(1) h3(1)
    by (simp add: RelinearizationWithSharedRelinKey_def newPolys_def index_def Let_def
        foldM_nested upt_update_0 del: upt_Suc)
  then show ?thesis using h3(2-4) by (simp add: crossConstants_def)
qed


lemma index_Some: "i < length xs \<Longrightarrow> index xs i = Some (xs ! i)"
  by (simp add: index_def)

lemma otf_inner_body_total:
  assumes "i * (k + 1) + j < length cipherParts"
    and "cipherParts ! (i * (k + 1) + j) < length h"
    and "j < length publicKeys" and "1 \<le> length (publicKeys ! j)"
    and "1 \<le> i" and "1 \<le> j" and "i \<le> k" and "j \<le> k"
    and "length (fst st) = k + 1" and "fst st ! 0 = z"
  shows "\<exists>st'. otf_inner_body publicKeys params cipherParts h k i di0 di1 di2 j st = Some st'
      \<and> length (fst st') = k + 1 \<and> fst st' ! 0 = z"
proof -
  obtain restmp tmpC0 tmpCi tmpIJ where st: "st = (restmp, tmpC0, tmpCi, tmpIJ)"
    by (cases st) auto
  show ?thesis
    using assms unfolding st
    by (auto simp: otf_inner_body_def index_def deref_def Let_def)
qed

lemma valid_publicKeysD:
  assumes "valid_publicKeys k publicKeys" and "j < k"
  shows "j < length publicKeys \<and> 1 \<le> length (publicKeys ! j)"
  using assms by (simp add: valid_publicKeys_def list_all_length)

lemma valid_evaluationKeysD:
  assumes "valid_evaluationKeys k evaluationKeys" and "i < k"
  shows "i < length evaluationKeys \<and> 3 \<le> length (evaluationKeys ! i)"
  using assms by (simp add: valid_evaluationKeys_def list_all_length)

lemma otf_outer_body_total:
  fixes st :: "'a list \<times> 'a \<times> 'a \<times> 'a"
  assumes len: "length cipherParts = (k + 1) * (k + 1)"
    and addrs: "\<forall>a \<in> set cipherParts. a < length h"
    and evks: "valid_evaluationKeys k evaluationKeys"
    and pks: "valid_publicKeys k publicKeys"
    and i: "1 \<le> i" "i < k"
    and st: "length (fst st) = k + 1" "fst st ! 0 = z"
  shows "\<exists>st'. otf_outer_body evaluationKeys publicKeys params cipherParts h k i st = Some st'
      \<and> length (fst st') = k + 1 \<and> fst st' ! 0 = z"
proof -
  from valid_evaluationKeysD [OF evks, of "i - 1"] i
  have e: "i - 1 < length evaluationKeys" "3 \<le> length (evaluationKeys ! (i - 1))" by simp_all
  let ?evk = "evaluationKeys ! (i - 1)"
  have "\<exists>st'. foldM (otf_inner_body publicKeys params cipherParts h k i (?evk ! 0) (?evk ! 1) (?evk ! 2))
          [1..<k] st = Some st' \<and> (length (fst st') = k + 1 \<and> fst st' ! 0 = z)"
  proof (rule foldM_total [where I = "\<lambda>s. length (fst s) = k + 1 \<and> fst s ! 0 = z"])
    show "length (fst st) = k + 1 \<and> fst st ! 0 = z" using st by simp
  next
    fix j and t :: "'a list \<times> 'a \<times> 'a \<times> 'a"
    assume j: "j \<in> set [1..<k]" and t: "length (fst t) = k + 1 \<and> fst t ! 0 = z"
    from j have jk: "1 \<le> j" "j < k" by auto
    have n: "i * (k + 1) + j < length cipherParts"
      using i jk len index_bound [of i k j] by simp
    have a: "cipherParts ! (i * (k + 1) + j) < length h" using addrs n nth_mem by blast
    show "\<exists>t'. otf_inner_body publicKeys params cipherParts h k i (?evk ! 0) (?evk ! 1) (?evk ! 2) j t = Some t'
        \<and> (length (fst t') = k + 1 \<and> fst t' ! 0 = z)"
      using valid_publicKeysD [OF pks jk(2)] i jk t
        otf_inner_body_total [OF n a, of publicKeys t z]
      by simp
  qed
  moreover have "0 < length ?evk" "1 < length ?evk" "2 < length ?evk" using e(2) by auto
  ultimately show ?thesis using e(1) by (simp add: otf_outer_body_def index_Some)
qed


lemma otf_final_loop:
  assumes len: "length cipherParts = (k + 1) * (k + 1)"
    and addrs: "\<forall>a \<in> set cipherParts. a < L"
    and restmp: "length restmp = k + 1"
    and h3: "length h3 = L + k + 2"
  shows "\<exists>h4. foldM (otf_final_body params cipherParts [L..<L + (k + 1)] restmp k) [1..<k + 1] h3 = Some h4
      \<and> length h4 = L + k + 2 \<and> (\<forall>a. a < L \<or> a = L + k + 1 \<longrightarrow> h4 ! a = h3 ! a)"
proof (rule foldM_total
    [where I = "\<lambda>h. length h = L + k + 2 \<and> (\<forall>a. a < L \<or> a = L + k + 1 \<longrightarrow> h ! a = h3 ! a)"])
  show "length h3 = L + k + 2 \<and> (\<forall>a. a < L \<or> a = L + k + 1 \<longrightarrow> h3 ! a = h3 ! a)"
    using h3 by simp
next
  fix i t
  assume i: "i \<in> set [1..<k + 1]"
    and t: "length t = L + k + 2 \<and> (\<forall>a. a < L \<or> a = L + k + 1 \<longrightarrow> t ! a = h3 ! a)"
  from i have ik: "1 \<le> i" "i \<le> k" by auto
  have i1: "i < length cipherParts" using ik len index_bound [of 0 k i] by simp
  have i2: "(k + 1) * i < length cipherParts" using ik len index_bound' [of i k] by simp
  have a1: "cipherParts ! i < L" using addrs i1 by simp
  have a2: "cipherParts ! ((k + 1) * i) < L" using addrs i2 nth_mem by blast
  let ?t1 = "t[L + i := Add (GetRingQ params) (t ! (cipherParts ! i)) (t ! (cipherParts ! ((k + 1) * i)))]"
  let ?t2 = "?t1[L + i := Add (GetRingQ params) (?t1 ! (L + i))
      (ModDownPQ params (levelQ_of (GetRingQ params)) (restmp ! i))]"
  have "otf_final_body params cipherParts [L..<L + (k + 1)] restmp k i t = Some ?t2"
    using i1 i2 a1 a2 ik t restmp
    by (simp add: otf_final_body_def index_Some Add_at_Some Add_local_Some Let_def del: upt_Suc)
  moreover have "length ?t2 = L + k + 2" using t by simp
  moreover have "\<forall>a. a < L \<or> a = L + k + 1 \<longrightarrow> ?t2 ! a = h3 ! a" using t ik by auto
  ultimately show "\<exists>t'. otf_final_body params cipherParts [L..<L + (k + 1)] restmp k i t = Some t' \<and>
      (length t' = L + k + 2 \<and> (\<forall>a. a < L \<or> a = L + k + 1 \<longrightarrow> t' ! a = h3 ! a))"
    by blast
qed

lemma otf_run:
  assumes ct: "valid_ciphertext k ciphertext h0"
    and evks: "valid_evaluationKeys k evaluationKeys"
    and pks: "valid_publicKeys k publicKeys"
  shows "\<exists>h'. RelinearizationOnTheFly evaluationKeys publicKeys ciphertext params h0 =
        Some (ciphertext\<lparr>ciphertexts :=
                (length h0 + k + 1) # [length h0 + 1..<length h0 + k + 1]\<rparr>, h')
      \<and> length h' = length h0 + k + 2
      \<and> (\<forall>a<length h0. h' ! a = h0 ! a)
      \<and> h' ! (length h0 + k + 1) =
          Add (GetRingQ params) (h0 ! (ciphertexts ciphertext ! 0))
            (ModDownPQ params (levelQ_of (GetRingQ params)) (NewPoly (GetRingQP params)))"
proof -
  let ?cp = "ciphertexts ciphertext"
  let ?L = "length h0"
  let ?ringQ = "GetRingQ params"
  let ?z = "NewPoly (GetRingQP params)"
  let ?h1 = "h0 @ replicate (k + 1) (NewPoly ?ringQ)"
  from ct have len: "length ?cp = (k + 1) * (k + 1)"
    and addrs: "\<forall>a \<in> set ?cp. a < ?L"
    by (simp_all add: valid_ciphertext_def list_all_iff)
  from evks have k: "length evaluationKeys = k" by (simp add: valid_evaluationKeys_def)
  have ne: "0 < length ?cp" using len by simp
  have c0: "?cp ! 0 < ?L" using addrs ne by simp
  have addrs1: "\<forall>a \<in> set ?cp. a < length ?h1" using addrs by auto
  let ?st0 = "(replicate (k + 1) ?z, ?z, ?z, ?z)"
  have "\<exists>st. foldM (otf_outer_body evaluationKeys publicKeys params ?cp ?h1 k) [1..<k] ?st0 = Some st
      \<and> (length (fst st) = k + 1 \<and> fst st ! 0 = ?z)"
  proof (rule foldM_total [where I = "\<lambda>s. length (fst s) = k + 1 \<and> fst s ! 0 = ?z"])
    show "length (fst ?st0) = k + 1 \<and> fst ?st0 ! 0 = ?z" by simp
  next
    fix i and t :: "'a list \<times> 'a \<times> 'a \<times> 'a"
    assume "i \<in> set [1..<k]" and "length (fst t) = k + 1 \<and> fst t ! 0 = ?z"
    then show "\<exists>t'. otf_outer_body evaluationKeys publicKeys params ?cp ?h1 k i t = Some t' \<and>
        (length (fst t') = k + 1 \<and> fst t' ! 0 = ?z)"
      using otf_outer_body_total [OF len addrs1 evks pks, of i t ?z params] by simp
  qed
  then obtain restmp tmpC0 tmpCi tmpIJ where
    st: "foldM (otf_outer_body evaluationKeys publicKeys params ?cp ?h1 k) [1..<k] ?st0
          = Some (restmp, tmpC0, tmpCi, tmpIJ)"
    and restmp: "length restmp = k + 1" "restmp ! 0 = ?z"
    by force
  let ?tmp = "ModDownPQ params (levelQ_of ?ringQ) ?z"
  let ?h2 = "?h1 @ [NewPoly ?ringQ]"
  let ?h3 = "?h2[?L + k + 1 := Add ?ringQ (h0 ! (?cp ! 0)) ?tmp]"
  have h3: "Add_local ?ringQ (?cp ! 0) ?tmp (length ?h1) ?h2 = Some ?h3"
    using c0 by (simp add: Add_local_Some nth_append)
  have h3len: "length ?h3 = ?L + k + 2" by simp
  obtain h4 where h4: "foldM (otf_final_body params ?cp [?L..<?L + (k + 1)] restmp k) [1..<k + 1] ?h3 = Some h4"
    "length h4 = ?L + k + 2" "\<forall>a. a < ?L \<or> a = ?L + k + 1 \<longrightarrow> h4 ! a = ?h3 ! a"
    using otf_final_loop [OF len addrs restmp(1) h3len, of params] by blast
  have "RelinearizationOnTheFly evaluationKeys publicKeys ciphertext params h0 =
        Some (ciphertext\<lparr>ciphertexts := (?L + k + 1) # [?L + 1..<?L + k + 1]\<rparr>, h4)"
    using k ne st restmp h3 h4(1)
    by (simp add: RelinearizationOnTheFly_def newPolys_def index_Some Let_def
        upt_update_0 del: upt_Suc)
  moreover have "\<forall>a<?L. h4 ! a = h0 ! a" using h4(3) by (simp add: nth_append)
  moreover have "h4 ! (?L + k + 1) = Add ?ringQ (h0 ! (?cp ! 0)) ?tmp"
    using h4(3) by simp
  ultimately show ?thesis using h4(2) by simp
qed

subsection \<open>What the shared-key variant leaves in every component\<close>







subsection \<open>The shared-key variant folds every cross term\<close>

lemma toyParams_GInverse: "\<forall>p. Beta toyParams \<le> length (GInverse toyParams p)"
  by (simp add: toyParams_def)





subsection \<open>The shared-key variant works in place\<close>

text \<open>
  Claim C10. \<^verbatim>\<open>RelinearizationWithSharedRelinKey\<close> mutates its input in place. On a
  ciphertext of \<open>k\<close> parties in the store \<open>h\<close> and a matching key, it returns, and
  \<^item> component \<open>0\<close> of the result is the very object that was component \<open>0\<close> before;
  \<^item> the other \<open>k\<close> components are the objects allocated by the call, at the addresses
    \<open>length h + 1, \<dots>, length h + k\<close>, none of which is an object of \<open>h\<close>; the
    returned store has \<open>length h + k + 1\<close> objects, so that every component of the result
    is an object of it;
  \<^item> \<open>peerIDs\<close> is unchanged;
  \<^item> no object of \<open>h\<close> other than the old component \<open>0\<close> is written;
  \<^item> the old component \<open>0\<close> holds the accumulated constant term: its old contents plus
    the first accumulator of every pair \<open>(i, j)\<close>, in the order of the loops (stated when
    no other component of the input shares that object).
\<close>

theorem RelinearizationWithSharedRelinKey_in_place:
  assumes "valid_ciphertext k ciphertext h"
    and "valid_relinKey k (Beta params) relinKey"
    and "\<forall>p. Beta params \<le> length (GInverse params p)"
  shows "\<exists>ct' h'. RelinearizationWithSharedRelinKey relinKey ciphertext params h = Some (ct', h')
      \<and> ciphertexts ct' ! 0 = ciphertexts ciphertext ! 0
      \<and> ciphertexts ciphertext ! 0 < length h
      \<and> tl (ciphertexts ct') = [length h + 1..<length h + k + 1]
      \<and> length h' = length h + k + 1
      \<and> list_all (\<lambda>a. a < length h') (ciphertexts ct')
      \<and> peerIDs ct' = peerIDs ciphertext
      \<and> (\<forall>a<length h. a \<noteq> ciphertexts ciphertext ! 0 \<longrightarrow> h' ! a = h ! a)
      \<and> (ciphertexts ciphertext ! 0 \<notin> set (tl (ciphertexts ciphertext)) \<longrightarrow>
           h' ! (ciphertexts ciphertext ! 0) =
             foldl (Add (GetRingQ params)) (h ! (ciphertexts ciphertext ! 0))
               (crossConstants relinKey params (ciphertexts ciphertext) h k))"
proof -
  from shared_run [OF assms] obtain h' where run:
    "RelinearizationWithSharedRelinKey relinKey ciphertext params h =
        Some (ciphertext\<lparr>ciphertexts :=
                ciphertexts ciphertext ! 0 # [length h + 1..<length h + k + 1]\<rparr>, h')"
    "length h' = length h + k + 1"
    "\<forall>a<length h. a \<noteq> ciphertexts ciphertext ! 0 \<longrightarrow> h' ! a = h ! a"
    "ciphertexts ciphertext ! 0 \<notin> set (tl (ciphertexts ciphertext)) \<longrightarrow>
           h' ! (ciphertexts ciphertext ! 0) =
             foldl (Add (GetRingQ params)) (h ! (ciphertexts ciphertext ! 0))
               (crossConstants relinKey params (ciphertexts ciphertext) h k)"
    by blast
  have c0: "ciphertexts ciphertext ! 0 < length h"
    using assms(1) by (simp add: valid_ciphertext_def list_all_length)
  have "list_all (\<lambda>a. a < length h')
      (ciphertexts ciphertext ! 0 # [length h + 1..<length h + k + 1])"
    using c0 run(2) by (auto simp: list_all_iff)
  with run c0 show ?thesis by simp
qed

lemma toy1_valid:
  "valid_ciphertext 1 toyCiphertext toyStore"
  "valid_relinKey 1 (Beta toyParams) toyRelinKey"
  by (simp_all add: valid_ciphertext_def valid_relinKey_def valid_switchingKey_def
      toyCiphertext_def toyStore_def toyRelinKey_def toySwitchingKey_def toyParams_def)

theorem RelinearizationWithSharedRelinKey_in_place_witness:
  "valid_ciphertext 1 toyCiphertext toyStore \<and>
   valid_relinKey 1 (Beta toyParams) toyRelinKey \<and>
   (\<forall>p. Beta toyParams \<le> length (GInverse toyParams p)) \<and>
   RelinearizationWithSharedRelinKey toyRelinKey toyCiphertext toyParams toyStore =
     Some (\<lparr>ciphertexts = [0, 5], peerIDs = [7]\<rparr>, [[4], [5], [6], [2], [0], [5]]) \<and>
   ciphertexts toyCiphertext ! 0 = 0 \<and>
   length toyStore = 4 \<and>
   crossConstants toyRelinKey toyParams (ciphertexts toyCiphertext) toyStore 1 = [[1]]"
proof -
  have run: "RelinearizationWithSharedRelinKey toyRelinKey toyCiphertext toyParams toyStore =
     Some (\<lparr>ciphertexts = [0, 5], peerIDs = [7]\<rparr>, [[4], [5], [6], [2], [0], [5]])"
    by code_simp
  have cc: "crossConstants toyRelinKey toyParams (ciphertexts toyCiphertext) toyStore 1 = [[1]]"
    by code_simp
  show ?thesis
    using toy1_valid toyParams_GInverse run cc
      RelinearizationWithSharedRelinKey_in_place [OF toy1_valid toyParams_GInverse]
    by (simp add: toyCiphertext_def toyStore_def)
qed

subsection \<open>The two variants on the same input\<close>

text \<open>
  Claim C1 fails on the code. For one party, the loops of \<^verbatim>\<open>RelinearizationOnTheFly\<close>
  (\<^verbatim>\<open>i < k\<close>, \<^verbatim>\<open>j < k\<close>) do not run, and the cross term \<open>c11\<close> is dropped. On the
  ciphertext \<open>(3, 5, 6, 2)\<close>, which decrypts under the secret \<open>3\<close> to
  \<open>3 + 5 \<cdot> 3 + 6 \<cdot> 3 + 2 \<cdot> 3\<^sup>2 = 5\<close> modulo \<open>7\<close>, the shared-key variant returns
  \<open>(4, 5)\<close>, which decrypts to \<open>5\<close>, and the on-the-fly variant returns \<open>(3, 4)\<close>, which
  decrypts to \<open>1\<close>; it returns the same on the ciphertext \<open>(3, 5, 6, 4)\<close>, where the
  shared-key variant returns \<open>(4, 4)\<close>.
\<close>

theorem relinearization_variants_differ:
  "resultPolys (RelinearizationWithSharedRelinKey toyRelinKey toyCiphertext toyParams toyStore)
     = [[4], [5]] \<and>
   resultPolys (RelinearizationOnTheFly toyEvaluationKeys toyPublicKeys toyCiphertext toyParams
     toyStore) = [[3], [4]] \<and>
   toyDecrypt [3] [[4], [5]] = 5 \<and>
   toyDecrypt [3] [[3], [4]] = 1 \<and>
   resultPolys (RelinearizationWithSharedRelinKey toyRelinKey toyCiphertext toyParams toyStore')
     = [[4], [4]] \<and>
   resultPolys (RelinearizationOnTheFly toyEvaluationKeys toyPublicKeys toyCiphertext toyParams
     toyStore') = [[3], [4]]"
  by code_simp

text \<open>
  For any number of parties, the constant term that \<^verbatim>\<open>RelinearizationOnTheFly\<close>
  returns is the input's constant term plus the mod-down of a new polynomial: no cross
  term and no key enters it, since \<^verbatim>\<open>restmp[0]\<close> is never written.
\<close>

lemma RelinearizationOnTheFly_constant_term:
  assumes "valid_ciphertext k ciphertext h"
    and "valid_evaluationKeys k evaluationKeys"
    and "valid_publicKeys k publicKeys"
  shows "\<exists>ct' h'. RelinearizationOnTheFly evaluationKeys publicKeys ciphertext params h
        = Some (ct', h')
      \<and> h' ! (ciphertexts ct' ! 0) =
          Add (GetRingQ params) (h ! (ciphertexts ciphertext ! 0))
            (ModDownPQ params (levelQ_of (GetRingQ params)) (NewPoly (GetRingQP params)))"
proof -
  from otf_run [OF assms] obtain h' where
    "RelinearizationOnTheFly evaluationKeys publicKeys ciphertext params h =
        Some (ciphertext\<lparr>ciphertexts :=
                (length h + k + 1) # [length h + 1..<length h + k + 1]\<rparr>, h')"
    "h' ! (length h + k + 1) =
          Add (GetRingQ params) (h ! (ciphertexts ciphertext ! 0))
            (ModDownPQ params (levelQ_of (GetRingQ params)) (NewPoly (GetRingQP params)))"
    by blast
  then show ?thesis by simp
qed

section \<open>Properties of the evaluator's bookkeeping\<close>

lemma droppedModuli_Suc:
  assumes "Suc n \<le> l"
  shows "droppedModuli Q l (Suc n) = Q ! l # droppedModuli Q (l - 1) n"
proof -
  have "[l + 1 - Suc n..<l + 1] = [l - n..<l] @ [l]" using assms by simp
  moreover have "[l - 1 + 1 - n..<l - 1 + 1] = [l - n..<l]" using assms by simp
  ultimately show ?thesis by (simp add: droppedModuli_def del: upt_Suc)
qed

lemma repeatRescale_levels:
  assumes "n \<le> level ct"
  shows "\<exists>ct'. repeatRescale Q divRound n ct = Inr ct'
      \<and> level ct' = level ct - n
      \<and> scale ct' = scale ct / real (prod_list (droppedModuli Q (level ct) n))
      \<and> length (Value ct') = length (Value ct)"
  using assms
proof (induction n arbitrary: ct)
  case 0
  then show ?case by (simp add: droppedModuli_def)
next
  case (Suc n)
  let ?ct1 = "ct\<lparr>Value := map divRound (Value ct), level := level ct - 1,
                  scale := scale ct / real (Q ! level ct)\<rparr>"
  have step: "Rescale Q divRound ct = Inr ?ct1" using Suc.prems by (simp add: Rescale_def)
  have "n \<le> level ?ct1" using Suc.prems by simp
  from Suc.IH [OF this] obtain ct' where ct':
    "repeatRescale Q divRound n ?ct1 = Inr ct'"
    "level ct' = level ?ct1 - n"
    "scale ct' = scale ?ct1 / real (prod_list (droppedModuli Q (level ?ct1) n))"
    "length (Value ct') = length (Value ?ct1)"
    by blast
  have "scale ct' = scale ct / real (prod_list (droppedModuli Q (level ct) (Suc n)))"
    using ct'(3) droppedModuli_Suc [OF Suc.prems, of Q] by simp
  then show ?case using step ct' by simp
qed

text \<open>
  Claim C5. For every ciphertext at a level \<open>L \<ge> n\<close> of the modulus chain and of scale
  \<open>s\<close>, \<^verbatim>\<open>RescaleMany(n)\<close> succeeds with a ciphertext whose level is \<open>L - n\<close> and
  whose scale is \<open>s\<close> divided by the product of the \<open>n\<close> dropped moduli
  \<open>q\<^sub>L, \<dots>, q\<^sub>L\<^sub>-\<^sub>n\<^sub>+\<^sub>1\<close>, an equality of real numbers.
\<close>

theorem RescaleMany_level_and_scale:
  assumes "n \<le> level ct" and "level ct < length Q"
  shows "\<exists>ct'. RescaleMany Q divRound n ct = Inr ct'
      \<and> level ct' = level ct - n
      \<and> scale ct' = scale ct / real (prod_list (droppedModuli Q (level ct) n))"
  using repeatRescale_levels [OF assms(1), of Q divRound] assms(1)
  by (auto simp: RescaleMany_def)

theorem RescaleMany_level_and_scale_witness:
  "2 \<le> level \<lparr>Value = [[1], [2::nat]], level = 3, scale = 1001\<rparr> \<and>
   level \<lparr>Value = [[1], [2::nat]], level = 3, scale = 1001\<rparr> < length [17, 13, 11, 7::nat] \<and>
   droppedModuli [17, 13, 11, 7] 3 2 = [7, 11] \<and>
   RescaleMany [17, 13, 11, 7] id 2 \<lparr>Value = [[1], [2::nat]], level = 3, scale = 1001\<rparr> =
     Inr \<lparr>Value = [[1], [2]], level = 1, scale = 13\<rparr>"
proof -
  have drop: "droppedModuli [17, 13, 11, 7] 3 2 = [7, 11]"
    by (simp add: droppedModuli_def upt_rec)
  have run: "RescaleMany [17, 13, 11, 7] id 2 \<lparr>Value = [[1], [2::nat]], level = 3, scale = 1001\<rparr> =
     Inr \<lparr>Value = [[1], [2]], level = 1, scale = 13\<rparr>"
    by (simp add: RescaleMany_def Rescale_def numeral_2_eq_2)
  show ?thesis
    using drop run
      RescaleMany_level_and_scale
        [of 2 "\<lparr>Value = [[1], [2::nat]], level = 3, scale = 1001\<rparr>" "[17, 13, 11, 7]" id]
    by simp
qed

section \<open>Properties of the collective public-key generation\<close>

lemma addQ_commute: "addQ q a b = addQ q b a"
proof (induction a arbitrary: b)
  case Nil
  then show ?case by (simp add: addQ_def)
next
  case (Cons x a)
  then show ?case by (cases b) (simp_all add: addQ_def add.commute)
qed

lemma addQ_assoc: "addQ q (addQ q a b) c = addQ q a (addQ q b c)"
proof (induction a arbitrary: b c)
  case Nil
  then show ?case by (simp add: addQ_def)
next
  case (Cons x a)
  show ?case
  proof (cases b)
    case Nil
    then show ?thesis by (simp add: addQ_def)
  next
    case b: (Cons y b')
    show ?thesis
    proof (cases c)
      case Nil
      then show ?thesis by (simp add: addQ_def)
    next
      case c: (Cons z c')
      have "addQ q (addQ q a b') c' = addQ q a (addQ q b' c')" by (rule Cons.IH)
      then show ?thesis unfolding b c by (simp add: addQ_def mod_simps add.assoc)
    qed
  qed
qed

lemma AggregateShares_left_commute:
  "AggregateShares q x (AggregateShares q y z) = AggregateShares q y (AggregateShares q x z)"
  unfolding AggregateShares_def
  by (metis addQ_assoc addQ_commute)

lemma fold_AggregateShares_permuted:
  assumes "mset xs = mset ys"
  shows "fold (\<lambda>s1 acc. AggregateShares q s1 acc) xs z = fold (\<lambda>s1 acc. AggregateShares q s1 acc) ys z"
  by (rule fold_permuted_eq [where P = "\<lambda>_. True"])
    (use assms AggregateShares_left_commute in auto)

lemma fold_remove1:
  assumes "x \<in> set xs"
  shows "fold (\<lambda>s1 acc. AggregateShares q s1 acc) xs z =
         fold (\<lambda>s1 acc. AggregateShares q s1 acc) (remove1 x xs) (AggregateShares q x z)"
proof -
  have "mset xs = mset (x # remove1 x xs)" using assms by simp
  from fold_AggregateShares_permuted [OF this] show ?thesis by simp
qed

lemma aggregateAll_permuted:
  assumes "mset shares = mset shares'"
  shows "aggregateAll q shares = aggregateAll q shares'"
proof (cases shares)
  case Nil
  then show ?thesis using assms by simp
next
  case s: (Cons s0 rest)
  then obtain t0 rest' where t: "shares' = t0 # rest'"
    using assms by (cases shares') auto
  let ?f = "\<lambda>s1 acc. AggregateShares q s1 acc"
  have "fold ?f rest s0 = fold ?f rest' t0"
  proof (cases "s0 = t0")
    case True
    then have "mset rest = mset rest'" using assms s t by simp
    then show ?thesis using True fold_AggregateShares_permuted by blast
  next
    case False
    have m: "add_mset s0 (mset rest) = add_mset t0 (mset rest')" using assms s t by simp
    then have t0: "t0 \<in> set rest" and s0: "s0 \<in> set rest'"
      using False by (metis insert_iff set_mset_add_mset_insert set_mset_mset)+
    have "mset (remove1 t0 rest) = mset (remove1 s0 rest')"
      using m False by (metis add_mset_remove_trivial_If diff_union_swap mset_remove1 
          add_mset_remove_trivial)
    then have "fold ?f (remove1 t0 rest) (AggregateShares q t0 s0) =
        fold ?f (remove1 s0 rest') (AggregateShares q t0 s0)"
      by (rule fold_AggregateShares_permuted)
    moreover have "AggregateShares q t0 s0 = AggregateShares q s0 t0"
      by (simp add: AggregateShares_def addQ_commute)
    ultimately show ?thesis
      using fold_remove1 [OF t0, of q s0] fold_remove1 [OF s0, of q t0] by simp
  qed
  then show ?thesis using s t by (simp add: aggregateAll_def)
qed


lemma length_addQ: "length (addQ q a b) = min (length a) (length b)"
  by (simp add: addQ_def)

lemma nth_addQ:
  "j < length a \<Longrightarrow> j < length b \<Longrightarrow> addQ q a b ! j = (a ! j + b ! j) mod q"
  by (simp add: addQ_def)

lemma length_GenShare:
  "length sk = length crp \<Longrightarrow> length e = length crp \<Longrightarrow> length (GenShare q sk crp e) = length crp"
  by (simp add: GenShare_def addQ_def negQ_def mulQ_def)

lemma nth_GenShare:
  assumes "length sk = length crp" and "length e = length crp" and "j < length crp"
  shows "GenShare q sk crp e ! j = (- (crp ! j * sk ! j) + e ! j) mod q"
  using assms by (simp add: GenShare_def addQ_def negQ_def mulQ_def mod_simps)

lemma fold_addQ_length:
  assumes "\<forall>p \<in> set ps. length p = n" and "length acc = n"
  shows "length (fold (\<lambda>p acc. addQ q p acc) ps acc) = n"
  using assms by (induction ps arbitrary: acc) (simp_all add: length_addQ)

lemma fold_addQ_nth:
  assumes "\<forall>p \<in> set ps. length p = n" and "length acc = n" and "j < n"
    and "acc ! j mod q = acc ! j"
  shows "fold (\<lambda>p acc. addQ q p acc) ps acc ! j = (acc ! j + sum_list (map (\<lambda>p. p ! j) ps)) mod q"
  using assms
proof (induction ps arbitrary: acc)
  case Nil
  then show ?case by simp
next
  case (Cons p ps)
  let ?acc = "addQ q p acc"
  have len: "length ?acc = n" using Cons.prems by (simp add: length_addQ)
  have nth: "?acc ! j = (p ! j + acc ! j) mod q" using Cons.prems by (simp add: nth_addQ)
  have "fold (\<lambda>p acc. addQ q p acc) ps ?acc ! j = (?acc ! j + sum_list (map (\<lambda>p. p ! j) ps)) mod q"
    by (rule Cons.IH) (use Cons.prems len nth in auto)
  then show ?case by (simp add: nth mod_simps ac_simps)
qed

lemma sumPolys_length:
  assumes "\<forall>p \<in> set ps. length p = n"
  shows "length (sumPolys q n ps) = n"
proof -
  have "sumPolys q n ps = fold (\<lambda>p acc. addQ q p acc) ps (replicate n 0)"
    unfolding sumPolys_def by (subst addQ_commute) simp
  then show ?thesis using fold_addQ_length [OF assms, of "replicate n 0" q] by simp
qed

lemma sumPolys_nth:
  assumes "\<forall>p \<in> set ps. length p = n" and "j < n"
  shows "sumPolys q n ps ! j = sum_list (map (\<lambda>p. p ! j) ps) mod q"
proof -
  have "sumPolys q n ps = fold (\<lambda>p acc. addQ q p acc) ps (replicate n 0)"
    unfolding sumPolys_def by (subst addQ_commute) simp
  then show ?thesis using fold_addQ_nth [OF assms(1) _ assms(2), of "replicate n 0" q] assms(2) by simp
qed

lemma sum_list_mod: "sum_list (map (\<lambda>x. f x mod q) xs) mod q = sum_list (map f xs) mod (q::int)"
proof (induction xs)
  case Nil
  then show ?case by simp
next
  case (Cons x xs)
  have "(f x mod q + (\<Sum>y\<leftarrow>xs. f y mod q)) mod q = (f x + (\<Sum>y\<leftarrow>xs. f y mod q) mod q) mod q"
    by (simp add: mod_simps)
  also have "\<dots> = (f x + sum_list (map f xs) mod q) mod q"
    by (simp only: Cons.IH)
  also have "\<dots> = (f x + sum_list (map f xs)) mod q"
    by (simp add: mod_simps)
  finally show ?case by simp
qed

lemma sum_list_rlwe:
  "sum_list (map (\<lambda>(sk, e). - (c * f sk) + g e) parties) =
   - (c * sum_list (map (\<lambda>(sk, e). f sk) parties)) + sum_list (map (\<lambda>(sk, e). g e) parties :: int list)"
  by (induction parties) (auto simp: algebra_simps)


lemma mod_rlwe: "(- (c * (a mod q)) + b mod q) mod q = (- (c * a) + b) mod (q::int)"
proof -
  have 1: "(c * (a mod q)) mod q = (c * a) mod q" by (simp add: mod_mult_right_eq)
  have 2: "(- (c * (a mod q))) mod q = (- (c * a)) mod q"
    by (rule Euclidean_Rings.mod_minus_cong) (rule 1)
  show ?thesis by (rule mod_add_cong) (rule 2, simp)
qed

lemma shares_nth:
  assumes shapes: "\<forall>(sk, e) \<in> set parties. length sk = length crp \<and> length e = length crp"
    and j: "j < length crp"
  shows "sum_list (map (\<lambda>p. p ! j) (map (\<lambda>(sk, e). GenShare q sk crp e) parties)) mod q =
         (- (crp ! j * sum_list (map (\<lambda>p. p ! j) (map fst parties)))
            + sum_list (map (\<lambda>p. p ! j) (map snd parties))) mod q"
proof -
  have "map (\<lambda>p. p ! j) (map (\<lambda>(sk, e). GenShare q sk crp e) parties) =
        map (\<lambda>p. (case p of (sk, e) \<Rightarrow> - (crp ! j * sk ! j) + e ! j) mod q) parties"
    using shapes j by (auto simp: nth_GenShare)
  then have "sum_list (map (\<lambda>p. p ! j) (map (\<lambda>(sk, e). GenShare q sk crp e) parties)) mod q =
      sum_list (map (\<lambda>(sk, e). - (crp ! j * sk ! j) + e ! j) parties) mod q"
    by (simp only: sum_list_mod)
  also have "sum_list (map (\<lambda>(sk, e). - (crp ! j * sk ! j) + e ! j) parties) =
      - (crp ! j * sum_list (map (\<lambda>(sk, e). sk ! j) parties))
        + sum_list (map (\<lambda>(sk, e). e ! j) parties)"
    by (rule sum_list_rlwe [of "crp ! j" "\<lambda>sk. sk ! j" "\<lambda>e. e ! j"])
  also have "map (\<lambda>(sk, e). sk ! j) parties = map (\<lambda>p. p ! j) (map fst parties)"
    by (simp add: case_prod_beta comp_def)
  also have "map (\<lambda>(sk, e). e ! j) parties = map (\<lambda>p. p ! j) (map snd parties)"
    by (simp add: case_prod_beta comp_def)
  finally show ?thesis .
qed

lemma collectivePublicKey_rlwe:
  assumes ne: "parties \<noteq> []"
    and shapes: "\<forall>(sk, e) \<in> set parties. length sk = length crp \<and> length e = length crp"
  shows "collectivePublicKey q crp parties =
     Some (GenShare q (sumPolys q (length crp) (map fst parties)) crp
             (sumPolys q (length crp) (map snd parties)), crp)"
proof -
  let ?n = "length crp"
  let ?gen = "\<lambda>(sk, e). GenShare q sk crp e"
  let ?f = "\<lambda>s1 acc. AggregateShares q s1 acc"
  obtain p0 rest where parties: "parties = p0 # rest" using ne by (cases parties) auto
  let ?agg = "fold ?f (map ?gen rest) (?gen p0)"
  let ?sS = "sumPolys q ?n (map fst parties)"
  let ?eS = "sumPolys q ?n (map snd parties)"
  have slen: "\<forall>p \<in> set (map fst parties). length p = ?n"
    and elen: "\<forall>p \<in> set (map snd parties). length p = ?n"
    using shapes by auto
  have shlen: "\<forall>p \<in> set (map ?gen rest). length p = ?n"
    using shapes parties by (auto simp: length_GenShare)
  have p0len: "length (?gen p0) = ?n"
    using shapes parties by (auto simp: length_GenShare)
  have f: "?f = (\<lambda>p acc. addQ q p acc)" by (simp add: AggregateShares_def)
  have "?agg = GenShare q ?sS crp ?eS"
  proof (rule nth_equalityI)
    show "length ?agg = length (GenShare q ?sS crp ?eS)"
      using fold_addQ_length [OF shlen p0len, of q] sumPolys_length [OF slen, of q]
        sumPolys_length [OF elen, of q]
      by (simp add: f length_GenShare)
  next
    fix j
    assume "j < length ?agg"
    then have j: "j < ?n" using fold_addQ_length [OF shlen p0len, of q] by (simp add: f)
    have red: "?gen p0 ! j mod q = ?gen p0 ! j"
      using shapes parties j by (auto simp: nth_GenShare)
    have "?agg ! j = (?gen p0 ! j + sum_list (map (\<lambda>p. p ! j) (map ?gen rest))) mod q"
      using fold_addQ_nth [OF shlen p0len j red] by (simp add: f)
    also have "\<dots> = sum_list (map (\<lambda>p. p ! j) (map ?gen parties)) mod q"
      by (simp add: parties)
    also have "\<dots> = (- (crp ! j * sum_list (map (\<lambda>p. p ! j) (map fst parties)))
            + sum_list (map (\<lambda>p. p ! j) (map snd parties))) mod q"
      by (rule shares_nth [OF shapes j])
    also have "\<dots> = (- (crp ! j * (sum_list (map (\<lambda>p. p ! j) (map fst parties)) mod q))
            + sum_list (map (\<lambda>p. p ! j) (map snd parties)) mod q) mod q"
      by (rule mod_rlwe [symmetric])
    also have "\<dots> = (- (crp ! j * ?sS ! j) + ?eS ! j) mod q"
      by (simp only: sumPolys_nth [OF slen j] sumPolys_nth [OF elen j])
    also have "\<dots> = GenShare q ?sS crp ?eS ! j"
      using sumPolys_length [OF slen, of q] sumPolys_length [OF elen, of q] j
      by (simp only: nth_GenShare)
    finally show "?agg ! j = GenShare q ?sS crp ?eS ! j" .
  qed
  then show ?thesis
    by (simp add: collectivePublicKey_def aggregateAll_def GenPublicKey_def parties)
qed

text \<open>
  Claim C6. The aggregation of shares is commutative and associative, so the shares of one
  round aggregated in any permutation of their arrival order give the same result; for the
  collective public-key generation, \<open>k \<ge> 1\<close> parties in any order of arrival obtain the
  public key \<open>(b, a)\<close> with \<open>b = -a\<cdot>s + e\<close>, where \<open>s\<close> is the joint secret, the sum of
  the parties' shards, and \<open>e\<close> the sum of their errors: the key of the joint secret.
\<close>

theorem aggregation_order_independent:
  assumes "mset shares' = mset shares"
    and "mset parties' = mset parties"
    and "parties \<noteq> []"
    and "\<forall>(sk, e) \<in> set parties. length sk = length crp \<and> length e = length crp"
  shows "(\<forall>a b. AggregateShares q a b = AggregateShares q b a)
       \<and> (\<forall>a b c. AggregateShares q (AggregateShares q a b) c =
                  AggregateShares q a (AggregateShares q b c))
       \<and> aggregateAll q shares' = aggregateAll q shares
       \<and> collectivePublicKey q crp parties' = collectivePublicKey q crp parties
       \<and> collectivePublicKey q crp parties' =
           Some (GenShare q (sumPolys q (length crp) (map fst parties)) crp
                   (sumPolys q (length crp) (map snd parties)), crp)"
proof -
  have comm: "\<forall>a b. AggregateShares q a b = AggregateShares q b a"
    by (simp add: AggregateShares_def addQ_commute)
  have assoc: "\<forall>a b c. AggregateShares q (AggregateShares q a b) c =
                  AggregateShares q a (AggregateShares q b c)"
    by (simp add: AggregateShares_def addQ_assoc)
  have agg: "aggregateAll q shares' = aggregateAll q shares"
    by (rule aggregateAll_permuted) (rule assms(1))
  have "mset (map (\<lambda>(sk, e). GenShare q sk crp e) parties') =
        mset (map (\<lambda>(sk, e). GenShare q sk crp e) parties)"
    using assms(2) by simp
  then have "aggregateAll q (map (\<lambda>(sk, e). GenShare q sk crp e) parties') =
        aggregateAll q (map (\<lambda>(sk, e). GenShare q sk crp e) parties)"
    by (rule aggregateAll_permuted)
  then have pk: "collectivePublicKey q crp parties' = collectivePublicKey q crp parties"
    by (simp add: collectivePublicKey_def)
  have "collectivePublicKey q crp parties =
           Some (GenShare q (sumPolys q (length crp) (map fst parties)) crp
                   (sumPolys q (length crp) (map snd parties)), crp)"
    by (rule collectivePublicKey_rlwe) (rule assms(3), rule assms(4))
  with comm assoc agg pk show ?thesis by simp
qed

theorem aggregation_order_independent_witness:
  "mset toyShares' = mset toyShares \<and>
   mset toyParties' = mset toyParties \<and>
   toyParties \<noteq> [] \<and>
   list_all (\<lambda>(sk, e). length sk = length toyCrp \<and> length e = length toyCrp) toyParties \<and>
   toyShares = [[5, 6], [0, 3], [4, 2]] \<and>
   toyShares' = [[0, 3], [4, 2], [5, 6]] \<and>
   aggregateAll 7 toyShares' = Some [2, 4] \<and>
   aggregateAll 7 toyShares = Some [2, 4] \<and>
   collectivePublicKey 7 toyCrp toyParties' = Some ([2, 4], [3, 5]) \<and>
   collectivePublicKey 7 toyCrp toyParties = Some ([2, 4], [3, 5]) \<and>
   sumPolys 7 (length toyCrp) (map fst toyParties) = [0, 2] \<and>
   sumPolys 7 (length toyCrp) (map snd toyParties) = [2, 0] \<and>
   GenShare 7 [0, 2] toyCrp [2, 0] = [2, 4]"
proof -
  have sh: "toyShares = [[5, 6], [0, 3], [4, 2]]" "toyShares' = [[0, 3], [4, 2], [5, 6]]"
    by (simp_all add: toyShares_def toyShares'_def toyParties_def toyParties'_def toyCrp_def
        GenShare_def addQ_def mulQ_def negQ_def)
  have p1: "mset toyShares' = mset toyShares"
    unfolding sh by (simp add: add_mset_commute)
  have p2: "mset toyParties' = mset toyParties"
    by (simp add: toyParties_def toyParties'_def add_mset_commute)
  have ne: "toyParties \<noteq> []"
    by (simp add: toyParties_def)
  have shapes: "\<forall>(sk, e) \<in> set toyParties. length sk = length toyCrp \<and> length e = length toyCrp"
    by (simp add: toyParties_def toyCrp_def)
  have vals: "aggregateAll 7 toyShares = Some [2, 4]"
    "sumPolys 7 (length toyCrp) (map fst toyParties) = [0, 2]"
    "sumPolys 7 (length toyCrp) (map snd toyParties) = [2, 0]"
    "GenShare 7 [0, 2] toyCrp [2, 0] = [2, 4]"
    unfolding sh
    by (simp_all add: aggregateAll_def AggregateShares_def sumPolys_def GenShare_def
        addQ_def mulQ_def negQ_def toyParties_def toyCrp_def numeral_2_eq_2)
  have crp: "toyCrp = [3, 5]" by (simp add: toyCrp_def)
  have all: "list_all (\<lambda>(sk, e). length sk = length toyCrp \<and> length e = length toyCrp) toyParties"
    using shapes by (simp add: list_all_iff)
  from aggregation_order_independent [OF p1 p2 ne shapes, of 7]
  have "aggregateAll 7 toyShares' = aggregateAll 7 toyShares"
    and "collectivePublicKey 7 toyCrp toyParties' = collectivePublicKey 7 toyCrp toyParties"
    and "collectivePublicKey 7 toyCrp toyParties' =
           Some (GenShare 7 (sumPolys 7 (length toyCrp) (map fst toyParties)) toyCrp
                   (sumPolys 7 (length toyCrp) (map snd toyParties)), toyCrp)"
    by blast+
  then show ?thesis
    using sh p1 p2 ne all vals crp by simp
qed

end
